theory Spec2Isabelle
  imports
    Complex_Main
    "HOL-Library.Sublist"
    "HOL-Library.Multiset"
    "HOL-Library.List_Lexorder"
    "HOL-Library.Char_ord"
begin

section \<open>JavaScript strings and arrays\<close>

text \<open>
  A JavaScript string is modelled as a \<^typ>\<open>string\<close>: one \<^typ>\<open>char\<close> per code unit, for
  texts whose code units are below 256.  The built-in operations the sources call are
  written out here with the behaviour ECMAScript gives them on that range.
\<close>

abbreviation nl :: char where
  "nl \<equiv> CHR 0x0A"

text \<open>\<open>s.substring(i, j)\<close> for \<open>0 \<le> i \<le> j\<close>: both ends are clamped to the length.\<close>

definition substring :: "'a list \<Rightarrow> nat \<Rightarrow> nat \<Rightarrow> 'a list" where
  "substring s i j = take (j - i) (drop i s)"

text \<open>\<open>s.startsWith(p)\<close>.\<close>

definition startsWith :: "'a list \<Rightarrow> 'a list \<Rightarrow> bool" where
  "startsWith s p = (take (length p) s = p)"

text \<open>\<open>s.indexOf(p)\<close>: the least index at which \<open>p\<close> occurs, \<open>None\<close> for \<open>-1\<close>.\<close>

fun indexOf :: "'a list \<Rightarrow> 'a list \<Rightarrow> nat option" where
  "indexOf [] p = (if p = [] then Some 0 else None)"
| "indexOf (c # cs) p =
     (if startsWith (c # cs) p then Some 0 else map_option Suc (indexOf cs p))"

text \<open>\<open>s.includes(p)\<close>.\<close>

definition includes_str :: "'a list \<Rightarrow> 'a list \<Rightarrow> bool" where
  "includes_str s p = (indexOf s p \<noteq> None)"

text \<open>\<open>s.split(sep)\<close> for a one-unit separator: never the empty array.\<close>

fun split_str :: "'a \<Rightarrow> 'a list \<Rightarrow> 'a list list" where
  "split_str sep [] = [[]]"
| "split_str sep (c # cs) =
     (if c = sep then [] # split_str sep cs
      else (case split_str sep cs of
              [] \<Rightarrow> [[c]]
            | l # ls \<Rightarrow> (c # l) # ls))"

text \<open>\<open>xs.join(sep)\<close>.\<close>

fun join :: "'a list \<Rightarrow> 'a list list \<Rightarrow> 'a list" where
  "join sep [] = []"
| "join sep [x] = x"
| "join sep (x # y # ys) = x @ sep @ join sep (y # ys)"

text \<open>
  The white space of \<open>String.prototype.trim\<close> and of the regular expression class
  \<open>\s\<close> (the same set): tab, line feed, vertical tab, form feed, carriage return, space
  and the no-break space.
\<close>

definition isWhiteSpace :: "char \<Rightarrow> bool" where
  "isWhiteSpace c =
     (c = CHR 0x09 \<or> c = CHR 0x0A \<or> c = CHR 0x0B \<or> c = CHR 0x0C \<or> c = CHR 0x0D
      \<or> c = CHR 0x20 \<or> c = CHR 0xA0)"

definition trim :: "string \<Rightarrow> string" where
  "trim s = rev (dropWhile isWhiteSpace (rev (dropWhile isWhiteSpace s)))"

text \<open>\<open>s.toLowerCase()\<close>: on code units below 256 only A-Z and the accented capitals
  0xC0-0xDE (without the multiplication sign 0xD7) change, each by 0x20.\<close>

definition toLowerChar :: "char \<Rightarrow> char" where
  "toLowerChar c =
     (let n = (of_char c :: nat) in
      if (65 \<le> n \<and> n \<le> 90) \<or> (192 \<le> n \<and> n \<le> 222 \<and> n \<noteq> 215)
      then char_of (n + 32) else c)"

definition toLowerCase :: "string \<Rightarrow> string" where
  "toLowerCase s = map toLowerChar s"

text \<open>
  \<open>xs.sort(cmp)\<close>: ECMAScript requires the sort to be stable, so for a consistent
  comparator the result is the one insertion from the right produces: an element is put
  before the first element it does not compare greater than.
\<close>

fun insert_by :: "('a \<Rightarrow> 'a \<Rightarrow> int) \<Rightarrow> 'a \<Rightarrow> 'a list \<Rightarrow> 'a list" where
  "insert_by cmp x [] = [x]"
| "insert_by cmp x (y # ys) =
     (if cmp x y \<le> 0 then x # y # ys else y # insert_by cmp x ys)"

definition sort_by :: "('a \<Rightarrow> 'a \<Rightarrow> int) \<Rightarrow> 'a list \<Rightarrow> 'a list" where
  "sort_by cmp xs = foldr (insert_by cmp) xs []"

section \<open>Data model (types/request.ts)\<close>

text \<open>
  Fields keep their names; where two interfaces share a field name the record fields are
  prefixed (\<open>method\<close> is \<open>http_method\<close>).  An optional field is an \<open>option\<close>.  The
  records are decoded JSON, and the guards of request-filter.ts reckon with a record
  without \<open>request\<close>, \<open>body\<close> or \<open>model\<close>: these three are options too, although
  the interfaces declare them required.  The type parameter \<open>'j\<close> stands for an
  arbitrary decoded JSON document (\<open>InputSchema\<close>, the response, content of a shape the
  interface does not foresee).
\<close>

datatype error = Error string | SyntaxError

record cache_control =
  cc_type :: string

record 'j tool =
  name :: string
  description :: string
  input_schema :: 'j

record message_content =
  mc_type :: string
  mc_text :: "string option"
  mc_cache_control :: "cache_control option"

datatype 'j content_shape =
    StringContent string
  | ArrayContent "message_content list"
  | OtherContent 'j

record 'j message =
  role :: string
  msg_content :: "'j content_shape"

record system_block =
  sb_type :: string
  sb_text :: string
  sb_cache_control :: "cache_control option"

record 'j request_body =
  model :: "string option"
  messages :: "'j message list"
  temperature :: "real option"
  system :: "system_block list option"
  tools :: "'j tool list option"

record 'j request =
  timestamp :: real
  http_method :: string
  url :: string
  headers :: "(string \<times> string) list"
  body :: "'j request_body option"

record 'j request_response_pair =
  request :: "'j request option"
  response :: 'j

text \<open>\<open>OutputData\<close> of the formatter.\<close>

record 'j output_data =
  versionLabel :: string
  releaseDate :: string
  userMessage :: string
  systemPrompt :: string
  od_tools :: "'j tool list"

section \<open>Content extraction (content-extractor.ts)\<close>

text \<open>\<open>item.text || ""\<close>: an absent text and the empty text both give the empty string.\<close>

definition text_or_empty :: "message_content \<Rightarrow> string" where
  "text_or_empty item = (case mc_text item of None \<Rightarrow> [] | Some t \<Rightarrow> t)"

definition extractUserMessage :: "'j message option \<Rightarrow> string" where
  "extractUserMessage message =
     (case message of
        None \<Rightarrow> []
      | Some m \<Rightarrow>
          (case msg_content m of
             StringContent s \<Rightarrow> s
           | ArrayContent items \<Rightarrow>
               join [nl] (map text_or_empty (filter (\<lambda>item. mc_type item = ''text'') items))
           | OtherContent _ \<Rightarrow> []))"

section \<open>Request selection (request-filter.ts)\<close>

text \<open>
  The optional chains \<open>pair.request?.body?.model\<close>, \<open>...?.tools\<close> and the access
  \<open>pair.request.body.system\<close>.  The last one is only evaluated on records that passed
  \<open>filterRequestsWithTools\<close>, whose request and body are present.
\<close>

definition body_model :: "'j request_response_pair \<Rightarrow> string option" where
  "body_model pair = Option.bind (request pair) (\<lambda>r. Option.bind (body r) model)"

definition body_tools :: "'j request_response_pair \<Rightarrow> 'j tool list option" where
  "body_tools pair = Option.bind (request pair) (\<lambda>r. Option.bind (body r) tools)"

definition body_system :: "'j request_response_pair \<Rightarrow> system_block list option" where
  "body_system pair = Option.bind (request pair) (\<lambda>r. Option.bind (body r) system)"

text \<open>The filter condition is a truthiness test: the empty model string is falsy.\<close>

definition filterNonHaikuRequests ::
  "'j request_response_pair list \<Rightarrow> 'j request_response_pair list" where
  "filterNonHaikuRequests pairs =
     filter (\<lambda>pair. case body_model pair of
                       None \<Rightarrow> False
                     | Some m \<Rightarrow> m \<noteq> [] \<and> \<not> includes_str (toLowerCase m) ''haiku'') pairs"

definition filterRequestsWithTools ::
  "'j request_response_pair list \<Rightarrow> 'j request_response_pair list" where
  "filterRequestsWithTools pairs =
     filter (\<lambda>pair. case body_tools pair of
                       None \<Rightarrow> False
                     | Some ts \<Rightarrow> length ts > 0) pairs"

text \<open>\<open>pair.request.body.tools?.length || 0\<close>.\<close>

definition tool_count :: "'j request_response_pair \<Rightarrow> int" where
  "tool_count pair = (case body_tools pair of None \<Rightarrow> 0 | Some ts \<Rightarrow> int (length ts))"

text \<open>
  \<open>pair.request.body.system\<close> is tested for truthiness: an array, empty or not, is
  truthy; only an absent list is falsy.  The two indexed reads \<open>sorted[0]\<close> and
  \<open>nonHaikuPairs[0]\<close> are guarded by the length tests before them.
\<close>

definition selectBestRequest ::
  "'j request_response_pair list \<Rightarrow> error + 'j request_response_pair" where
  "selectBestRequest pairs =
     (let nonHaikuPairs = filterNonHaikuRequests pairs;
          requestsWithToolsAndSystemPrompt =
            filter (\<lambda>pair. body_system pair \<noteq> None) (filterRequestsWithTools nonHaikuPairs)
      in if length requestsWithToolsAndSystemPrompt > 0
         then (let sorted = sort_by (\<lambda>a b. tool_count b - tool_count a)
                                    requestsWithToolsAndSystemPrompt
               in Inr (sorted ! 0))
         else if length nonHaikuPairs > 0 then Inr (nonHaikuPairs ! 0)
         else Inl (Error ''No non-Haiku request found in the log''))"

text \<open>
  \<open>String.prototype.localeCompare\<close> is a built-in whose order depends on the host's
  locale data; it is a parameter of the model.
\<close>

definition filterAndSortTools ::
  "(string \<Rightarrow> string \<Rightarrow> int) \<Rightarrow> 'j tool list option \<Rightarrow> 'j tool list" where
  "filterAndSortTools localeCompare tls =
     (case tls of
        None \<Rightarrow> []
      | Some ts \<Rightarrow>
          sort_by (\<lambda>a b. localeCompare (name a) (name b))
                  (filter (\<lambda>tool. \<not> startsWith (name tool) ''mcp__'') ts))"

section \<open>Report formatting (output-formatter.ts)\<close>

text \<open>
  The match of \<open>/^(#+)(\s+)/\<close> against a line: the longest run of \<open>#\<close> at the start
  is not empty and the unit after it is white space.  (A shorter run of \<open>#\<close> is followed
  by \<open>#\<close>, so backtracking finds no other match.)
\<close>

definition matches_header :: "string \<Rightarrow> bool" where
  "matches_header line =
     (takeWhile (\<lambda>c. c = CHR ''#'') line \<noteq> []
      \<and> (case dropWhile (\<lambda>c. c = CHR ''#'') line of
            [] \<Rightarrow> False
          | c # _ \<Rightarrow> isWhiteSpace c))"

definition indentHeaders :: "string \<Rightarrow> string" where
  "indentHeaders text =
     join [nl] (map (\<lambda>line. if matches_header line then CHR ''#'' # line else line)
                    (split_str nl text))"

text \<open>\<open>JSON.stringify(schema, null, 2)\<close> is a built-in: the parameter \<open>stringify\<close>, for
  which the next section gives the standard's definition.\<close>

definition formatTools :: "('j \<Rightarrow> string) \<Rightarrow> 'j tool list \<Rightarrow> string" where
  "formatTools stringify tls =
     join ''\<newline>\<newline>---\<newline>\<newline>''
       (map (\<lambda>tool.
               let schemaStr = stringify (input_schema tool);
                   indentedDescription = indentHeaders (indentHeaders (description tool))
               in ''## '' @ name tool @ ''\<newline>\<newline>'' @ indentedDescription
                  @ ''\<newline>'' @ schemaStr)
            tls)"

definition formatOutput :: "('j \<Rightarrow> string) \<Rightarrow> 'j output_data \<Rightarrow> string" where
  "formatOutput stringify data =
     (let toolsSection = formatTools stringify (od_tools data)
      in ''# Claude Code Version '' @ versionLabel data
         @ ''\<newline>\<newline>Release Date: '' @ releaseDate data
         @ ''\<newline>\<newline># User Message\<newline>\<newline>'' @ indentHeaders (userMessage data)
         @ ''\<newline>\<newline># System Prompt\<newline>\<newline>'' @ indentHeaders (systemPrompt data)
         @ ''\<newline>\<newline># Tools\<newline>\<newline>'' @ toolsSection
         @ ''\<newline>'')"

section \<open>JSON.stringify (ECMAScript, 25.5.2)\<close>

text \<open>
  \<open>formatTools\<close> calls the built-in \<open>JSON.stringify(schema, null, 2)\<close>.  To say how a
  schema is printed, the built-in is modelled after the standard: the abstract
  operations \<open>QuoteJSONString\<close> and \<open>SerializeJSONProperty\<close> (with
  \<open>SerializeJSONObject\<close> and \<open>SerializeJSONArray\<close> written out in it), and
  \<open>JSON.stringify\<close> itself, where the indentation argument 2 makes the gap two
  spaces and the replacer \<open>null\<close> keeps every property.

  A JSON value is a value as \<open>JSON.parse\<close> builds it.  An object is the list of its
  properties, in the order in which the object enumerates its own keys.
\<close>

datatype json =
    JNull
  | JBool bool
  | JNumber real
  | JString string
  | JArray "json list"
  | JObject "(string \<times> json) list"

text \<open>\<open>UnicodeEscape\<close> writes a code unit with four lower-case hexadecimal digits.\<close>

definition hexDigit :: "nat \<Rightarrow> char" where
  "hexDigit n = ''0123456789abcdef'' ! n"

text \<open>
  One code unit of \<open>QuoteJSONString\<close>: the units of the standard's table get their
  two-character escape, the other units below 0x20 a \<open>\u00XX\<close> escape, every other
  unit is copied.  (Surrogates do not occur among code units below 256.)
\<close>

definition quoteUnit :: "char \<Rightarrow> string" where
  "quoteUnit c =
     (if c = CHR 0x08 then [CHR 0x5C, CHR ''b'']
      else if c = CHR 0x09 then [CHR 0x5C, CHR ''t'']
      else if c = CHR 0x0A then [CHR 0x5C, CHR ''n'']
      else if c = CHR 0x0C then [CHR 0x5C, CHR ''f'']
      else if c = CHR 0x0D then [CHR 0x5C, CHR ''r'']
      else if c = CHR 0x22 then [CHR 0x5C, CHR 0x22]
      else if c = CHR 0x5C then [CHR 0x5C, CHR 0x5C]
      else if (of_char c :: nat) < 32
        then [CHR 0x5C, CHR ''u'', CHR ''0'', CHR ''0'',
              hexDigit (of_char c div 16), hexDigit (of_char c mod 16)]
      else [c])"

definition QuoteJSONString :: "string \<Rightarrow> string" where
  "QuoteJSONString s = [CHR 0x22] @ concat (map quoteUnit s) @ [CHR 0x22]"

text \<open>
  \<open>SerializeJSONProperty\<close> on a value, with the state's gap and current indentation.
  The text of a finite number is the result of \<open>Number::toString\<close> on a double, which
  is not modelled: the parameter \<open>num\<close>.
\<close>

fun SerializeJSONProperty ::
  "(real \<Rightarrow> string) \<Rightarrow> string \<Rightarrow> string \<Rightarrow> json \<Rightarrow> string" where
  "SerializeJSONProperty num gap indent JNull = ''null''"
| "SerializeJSONProperty num gap indent (JBool b) = (if b then ''true'' else ''false'')"
| "SerializeJSONProperty num gap indent (JNumber x) = num x"
| "SerializeJSONProperty num gap indent (JString s) = QuoteJSONString s"
| "SerializeJSONProperty num gap indent (JArray vs) =
     (let stepback = indent;
          indent = indent @ gap;
          partial = map (SerializeJSONProperty num gap indent) vs
      in if partial = [] then ''[]''
         else if gap = [] then ''['' @ join '','' partial @ '']''
         else (let separator = '','' @ [nl] @ indent;
                   properties = join separator partial
               in ''['' @ [nl] @ indent @ properties @ [nl] @ stepback @ '']''))"
| "SerializeJSONProperty num gap indent (JObject ms) =
     (let stepback = indent;
          indent = indent @ gap;
          partial = map (\<lambda>(P, v). QuoteJSONString P @ '':'' @ (if gap \<noteq> [] then '' '' else [])
                                    @ SerializeJSONProperty num gap indent v) ms
      in if partial = [] then ''{}''
         else if gap = [] then ''{'' @ join '','' partial @ ''}''
         else (let separator = '','' @ [nl] @ indent;
                   properties = join separator partial
               in ''{'' @ [nl] @ indent @ properties @ [nl] @ stepback @ ''}''))"

text \<open>\<open>JSON.stringify(value, null, 2)\<close>: the gap is two spaces, the indentation starts
  empty.\<close>

definition JSON_stringify :: "(real \<Rightarrow> string) \<Rightarrow> json \<Rightarrow> string" where
  "JSON_stringify num v = SerializeJSONProperty num ''  '' [] v"

section \<open>Capture parsing (jsonl-parser.ts)\<close>

text \<open>\<open>xs.map(f)\<close> for an \<open>f\<close> that may throw: the first exception ends the call.\<close>

fun map_throwing :: "('a \<Rightarrow> error + 'b) \<Rightarrow> 'a list \<Rightarrow> error + 'b list" where
  "map_throwing f [] = Inr []"
| "map_throwing f (x # xs) =
     (case f x of
        Inl e \<Rightarrow> Inl e
      | Inr y \<Rightarrow> (case map_throwing f xs of
                    Inl e \<Rightarrow> Inl e
                  | Inr ys \<Rightarrow> Inr (y # ys)))"

text \<open>
  \<open>JSON.parse\<close> is a built-in: the parameter \<open>JSON_parse\<close>, which either throws
  (\<open>Inl SyntaxError\<close>) or yields the decoded record.
\<close>

definition parseJsonl ::
  "(string \<Rightarrow> error + 'r) \<Rightarrow> string \<Rightarrow> error + 'r list" where
  "parseJsonl JSON_parse content =
     map_throwing JSON_parse
       (filter (\<lambda>line. trim line \<noteq> []) (split_str nl (trim content)))"

section \<open>Source patching (cli-patcher.ts)\<close>

text \<open>\<open>PatchResult\<close>.\<close>

record patch_result =
  patched :: bool
  content :: string
  message :: "string option"

definition warningText :: string where
  "warningText = ''It looks like your version of Claude Code''"

text \<open>The loop \<open>for (i = warningIndex; i >= 0; i--)\<close>.\<close>

fun scanFunction :: "string \<Rightarrow> nat \<Rightarrow> nat option" where
  "scanFunction cliContent 0 =
     (if substring cliContent 0 (0 + 8) = ''function'' then Some 0 else None)"
| "scanFunction cliContent (Suc i) =
     (if substring cliContent (Suc i) (Suc i + 8) = ''function'' then Some (Suc i)
      else scanFunction cliContent i)"

text \<open>
  The loop \<open>for (i = functionIndex; i < cliContent.length; i++)\<close>; the first argument
  is the text from index \<open>i\<close> on.
\<close>

fun scanOpenBrace :: "string \<Rightarrow> nat \<Rightarrow> nat option" where
  "scanOpenBrace [] i = None"
| "scanOpenBrace (c # cs) i =
     (if c = CHR ''{'' then Some i else scanOpenBrace cs (Suc i))"

text \<open>
  The loop \<open>for (i = openBraceIndex + 1; i < cliContent.length; i++)\<close> with its counter
  \<open>braceCount\<close>; the first argument is the text from index \<open>i\<close> on.
\<close>

fun scanCloseBrace :: "string \<Rightarrow> nat \<Rightarrow> int \<Rightarrow> nat option" where
  "scanCloseBrace [] i braceCount = None"
| "scanCloseBrace (c # cs) i braceCount =
     (if c = CHR ''{'' then scanCloseBrace cs (Suc i) (braceCount + 1)
      else if c = CHR ''}''
           then (if braceCount - 1 = 0 then Some i
                 else scanCloseBrace cs (Suc i) (braceCount - 1))
           else scanCloseBrace cs (Suc i) braceCount)"

definition patchCliVersionCheck :: "string \<Rightarrow> error + patch_result" where
  "patchCliVersionCheck cliContent =
     (case indexOf cliContent warningText of
        None \<Rightarrow>
          Inr \<lparr>patched = False, content = cliContent,
               message = Some ''Warning text not found - version check may not exist''\<rparr>
      | Some warningIndex \<Rightarrow>
     (case scanFunction cliContent warningIndex of
        None \<Rightarrow> Inl (Error ''Could not find function declaration before warning text'')
      | Some functionIndex \<Rightarrow>
     (case scanOpenBrace (drop functionIndex cliContent) functionIndex of
        None \<Rightarrow> Inl (Error ''Could not find opening brace after function declaration'')
      | Some openBraceIndex \<Rightarrow>
     (case scanCloseBrace (drop (openBraceIndex + 1) cliContent) (openBraceIndex + 1) 1 of
        None \<Rightarrow> Inl (Error ''Could not find matching closing brace'')
      | Some closeBraceIndex \<Rightarrow>
          (let functionDeclaration = substring cliContent functionIndex (openBraceIndex + 1);
               patchedFunction =
                 functionDeclaration @ '' /* Version check disabled by patch */ }'';
               patchedContent =
                 substring cliContent 0 functionIndex @ patchedFunction
                 @ drop (closeBraceIndex + 1) cliContent
           in Inr \<lparr>patched = True, content = patchedContent,
                    message = Some ''Version check successfully patched''\<rparr>)))))"

section \<open>Notions used in the statements\<close>

text \<open>
  These predicates are not translations of code: they say, in the words of the
  specification, what the theorems below compare the code with.
\<close>

text \<open>The pattern \<open>p\<close> occurs in \<open>s\<close> at index \<open>i\<close>.\<close>

definition occurs_at :: "'a list \<Rightarrow> 'a list \<Rightarrow> nat \<Rightarrow> bool" where
  "occurs_at s p i = (take (length p) (drop i s) = p)"

text \<open>The model identifier contains "haiku" in some mixture of upper and lower case.\<close>

definition contains_haiku :: "string \<Rightarrow> bool" where
  "contains_haiku m = (\<exists>pre mid post. m = pre @ mid @ post \<and> map toLowerChar mid = ''haiku'')"

text \<open>The record has a model identifier, which is not empty and does not contain "haiku".\<close>

definition non_haiku :: "'j request_response_pair \<Rightarrow> bool" where
  "non_haiku pair = (\<exists>m. body_model pair = Some m \<and> m \<noteq> [] \<and> \<not> contains_haiku m)"

text \<open>
  The preferred tier: such a record with a non-empty tool list and a non-empty
  system-block list.
\<close>

definition in_preferred_tier :: "'j request_response_pair \<Rightarrow> bool" where
  "in_preferred_tier pair =
     (non_haiku pair \<and> (\<exists>ts. body_tools pair = Some ts \<and> ts \<noteq> [])
      \<and> (\<exists>blocks. body_system pair = Some blocks \<and> blocks \<noteq> []))"

text \<open>A markdown header line: one or more \<open>#\<close> followed by a white-space unit.\<close>

definition header_line :: "string \<Rightarrow> bool" where
  "header_line line =
     (\<exists>n w rest. 0 < n \<and> line = replicate n (CHR ''#'') @ w # rest \<and> isWhiteSpace w)"

text \<open>Every line break of the text \<open>t\<close> is followed by the indentation \<open>ind\<close>.\<close>

definition breaks_indented :: "string \<Rightarrow> string \<Rightarrow> bool" where
  "breaks_indented ind t = (\<forall>pre post. t = pre @ nl # post \<longrightarrow> prefix ind post)"

text \<open>The net brace depth of a text: its opening braces minus its closing braces.\<close>

definition brace_depth :: "string \<Rightarrow> int" where
  "brace_depth s =
     int (length (filter (\<lambda>c. c = CHR ''{'') s)) - int (length (filter (\<lambda>c. c = CHR ''}'') s))"

text \<open>The first occurrence of the marker in \<open>s\<close> starts at index \<open>w\<close>.\<close>

definition first_marker :: "string \<Rightarrow> nat \<Rightarrow> bool" where
  "first_marker s w =
     (occurs_at s warningText w \<and> (\<forall>j < w. \<not> occurs_at s warningText j))"

text \<open>The token "function" occurs at \<open>f\<close>, at or before \<open>w\<close>, and nowhere after \<open>f\<close> up to
  \<open>w\<close>: the nearest one going backwards from \<open>w\<close>.\<close>

definition nearest_function :: "string \<Rightarrow> nat \<Rightarrow> nat \<Rightarrow> bool" where
  "nearest_function s w f =
     (f \<le> w \<and> occurs_at s ''function'' f
      \<and> (\<forall>j. f < j \<and> j \<le> w \<longrightarrow> \<not> occurs_at s ''function'' j))"

text \<open>The first opening brace at or after \<open>f\<close> is at \<open>b\<close>.\<close>

definition first_open_brace :: "string \<Rightarrow> nat \<Rightarrow> nat \<Rightarrow> bool" where
  "first_open_brace s f b =
     (f \<le> b \<and> b < length s \<and> s ! b = CHR ''{''
      \<and> (\<forall>j. f \<le> j \<and> j < b \<longrightarrow> s ! j \<noteq> CHR ''{''))"


text \<open>The three ways in which the structure around a marker at \<open>w\<close> can be missing: no
  "function" token at or before the marker;\<close>

definition no_enclosing_function :: "string \<Rightarrow> nat \<Rightarrow> bool" where
  "no_enclosing_function s w = (\<forall>j \<le> w. \<not> occurs_at s ''function'' j)"

text \<open>no opening brace at or after the nearest such token;\<close>

definition no_opening_brace :: "string \<Rightarrow> nat \<Rightarrow> bool" where
  "no_opening_brace s w =
     (\<exists>f. nearest_function s w f \<and> (\<forall>j. f \<le> j \<and> j < length s \<longrightarrow> s ! j \<noteq> CHR ''{''))"

text \<open>the depth, counted from 1 after that brace, is never 0 up to the end of the text.\<close>

definition unbalanced_braces :: "string \<Rightarrow> nat \<Rightarrow> bool" where
  "unbalanced_braces s w =
     (\<exists>f b. nearest_function s w f \<and> first_open_brace s f b
        \<and> (\<forall>j. b < j \<and> j < length s \<longrightarrow>
               1 + brace_depth (substring s (b + 1) (j + 1)) \<noteq> 0))"






text \<open>The lines of a text that are not blank, that is, not made of white space only.\<close>

definition nonblank_lines :: "string \<Rightarrow> string list" where
  "nonblank_lines s = filter (\<lambda>line. trim line \<noteq> []) (split_str nl s)"

section \<open>Example records\<close>

text \<open>
  Records as the tests of the repository build them (request-filter.test.ts), for the
  concrete instances below.
\<close>

abbreviation capture_record ::
  "real \<Rightarrow> string option \<Rightarrow> system_block list option \<Rightarrow> unit tool list option
   \<Rightarrow> unit request_response_pair" where
  "capture_record t m blocks tls \<equiv>
     \<lparr>request = Some \<lparr>timestamp = t, http_method = ''POST'', url = ''/'', headers = [],
                       body = Some \<lparr>model = m, messages = [], temperature = None,
                                    system = blocks, tools = tls\<rparr>\<rparr>,
      response = ()\<rparr>"

abbreviation tool1 :: "unit tool" where
  "tool1 \<equiv> \<lparr>name = ''tool1'', description = ''desc'', input_schema = ()\<rparr>"

abbreviation tool2 :: "unit tool" where
  "tool2 \<equiv> \<lparr>name = ''tool2'', description = ''desc'', input_schema = ()\<rparr>"

abbreviation block1 :: system_block where
  "block1 \<equiv> \<lparr>sb_type = ''text'', sb_text = ''You are Claude'', sb_cache_control = None\<rparr>"

section \<open>Lemmas about the string operations\<close>

lemma split_str_not_Nil: "split_str sep s \<noteq> []"
  by (induction s) (auto split: list.splits)

lemma join_split_str: "join [sep] (split_str sep s) = s"
proof (induction s)
  case Nil
  show ?case by simp
next
  case (Cons c cs)
  obtain l ls where e: "split_str sep cs = l # ls"
    using split_str_not_Nil[of sep cs] by (cases "split_str sep cs") auto
  show ?case
  proof (cases "c = sep")
    case True
    with Cons e show ?thesis by simp
  next
    case False
    with Cons e show ?thesis by (cases ls) auto
  qed
qed

lemma split_str_no_sep: "l \<in> set (split_str sep s) \<Longrightarrow> sep \<notin> set l"
proof (induction s arbitrary: l)
  case Nil
  then show ?case by simp
next
  case (Cons c cs)
  obtain l' ls where e: "split_str sep cs = l' # ls"
    using split_str_not_Nil[of sep cs] by (cases "split_str sep cs") auto
  show ?case
  proof (cases "c = sep")
    case True
    with Cons show ?thesis by auto
  next
    case False
    with Cons.prems e have "l = c # l' \<or> l \<in> set ls" by auto
    then show ?thesis
    proof
      assume "l = c # l'"
      moreover have "sep \<notin> set l'" using Cons.IH[of l'] e by simp
      ultimately show ?thesis using False by auto
    next
      assume "l \<in> set ls"
      then show ?thesis using Cons.IH[of l] e by simp
    qed
  qed
qed

lemma split_str_simple: "sep \<notin> set l \<Longrightarrow> split_str sep l = [l]"
  by (induction l) auto

lemma split_str_append_sep:
  "sep \<notin> set l \<Longrightarrow> split_str sep (l @ sep # s) = l # split_str sep s"
  by (induction l) auto

lemma split_str_join:
  "ls \<noteq> [] \<Longrightarrow> (\<forall>l \<in> set ls. sep \<notin> set l) \<Longrightarrow> split_str sep (join [sep] ls) = ls"
proof (induction ls)
  case Nil
  then show ?case by simp
next
  case (Cons x ys)
  show ?case
  proof (cases ys)
    case Nil
    with Cons.prems show ?thesis by (simp add: split_str_simple)
  next
    case (Cons y zs)
    with Cons.prems Cons.IH show ?thesis by (simp add: split_str_append_sep)
  qed
qed

section \<open>Lemmas about \<open>trim\<close> and the lines of a text\<close>

lemma map_throwing_Inr_iff:
  "map_throwing f xs = Inr ys \<longleftrightarrow> list_all2 (\<lambda>x y. f x = Inr y) xs ys"
proof (induction xs arbitrary: ys)
  case Nil
  show ?case by auto
next
  case (Cons x xs)
  show ?case
  proof (cases "f x")
    case (Inl e)
    then show ?thesis by (auto simp: list_all2_Cons1)
  next
    case (Inr y)
    show ?thesis
    proof (cases "map_throwing f xs")
      case (Inl e)
      with Inr Cons.IH show ?thesis by (auto simp: list_all2_Cons1)
    next
      case r: (Inr zs)
      with Inr Cons.IH show ?thesis by (auto simp: list_all2_Cons1)
    qed
  qed
qed

lemma map_throwing_Inl_iff:
  "map_throwing f xs = Inl e \<longleftrightarrow>
     (\<exists>k < length xs. f (xs ! k) = Inl e \<and> (\<forall>j < k. \<exists>y. f (xs ! j) = Inr y))"
proof (induction xs)
  case Nil
  show ?case by simp
next
  case (Cons x xs)
  show ?case
  proof (cases "f x")
    case (Inl e')
    have "(\<exists>k < length (x # xs). f ((x # xs) ! k) = Inl e \<and> (\<forall>j < k. \<exists>y. f ((x # xs) ! j) = Inr y))
          \<longleftrightarrow> e' = e"
    proof
      assume "\<exists>k < length (x # xs). f ((x # xs) ! k) = Inl e \<and> (\<forall>j < k. \<exists>y. f ((x # xs) ! j) = Inr y)"
      then obtain k where k: "f ((x # xs) ! k) = Inl e" "\<forall>j < k. \<exists>y. f ((x # xs) ! j) = Inr y"
        by blast
      have "k = 0"
      proof (rule ccontr)
        assume "k \<noteq> 0"
        then have "\<exists>y. f ((x # xs) ! 0) = Inr y" using k(2) by blast
        with Inl show False by simp
      qed
      with k(1) Inl show "e' = e" by simp
    next
      assume "e' = e"
      with Inl show "\<exists>k < length (x # xs). f ((x # xs) ! k) = Inl e \<and> (\<forall>j < k. \<exists>y. f ((x # xs) ! j) = Inr y)"
        by (intro exI[of _ 0]) simp
    qed
    with Inl show ?thesis by simp
  next
    case (Inr y)
    have "(\<exists>k < length (x # xs). f ((x # xs) ! k) = Inl e \<and> (\<forall>j < k. \<exists>y. f ((x # xs) ! j) = Inr y))
          \<longleftrightarrow> (\<exists>k < length xs. f (xs ! k) = Inl e \<and> (\<forall>j < k. \<exists>y. f (xs ! j) = Inr y))"
      (is "?L \<longleftrightarrow> ?R")
    proof
      assume ?L
      then obtain k where k: "k < length (x # xs)" "f ((x # xs) ! k) = Inl e"
        "\<forall>j < k. \<exists>y. f ((x # xs) ! j) = Inr y" by blast
      from k(2) Inr obtain k' where k': "k = Suc k'" by (cases k) auto
      have "\<forall>j < k'. \<exists>y. f (xs ! j) = Inr y"
      proof (intro allI impI)
        fix j assume "j < k'"
        then have "Suc j < k" using k' by simp
        with k(3) have "\<exists>y. f ((x # xs) ! Suc j) = Inr y" by blast
        then show "\<exists>y. f (xs ! j) = Inr y" by simp
      qed
      with k k' show ?R by (intro exI[of _ k']) simp
    next
      assume ?R
      then obtain k where k: "k < length xs" "f (xs ! k) = Inl e"
        "\<forall>j < k. \<exists>y. f (xs ! j) = Inr y" by blast
      have "\<forall>j < Suc k. \<exists>y. f ((x # xs) ! j) = Inr y"
        using k(3) Inr by (auto simp: nth_Cons split: nat.splits)
      with k show ?L by (intro exI[of _ "Suc k"]) simp
    qed
    with Inr Cons.IH show ?thesis by (cases "map_throwing f xs") auto
  qed
qed

lemma trim_all_white: "(\<forall>c \<in> set s. isWhiteSpace c) \<Longrightarrow> trim s = []"
proof -
  assume "\<forall>c \<in> set s. isWhiteSpace c"
  then have d: "dropWhile isWhiteSpace s = []"
    by (simp add: dropWhile_eq_Nil_conv)
  show ?thesis
    unfolding trim_def d by simp
qed

lemma trim_Cons_white: "isWhiteSpace c \<Longrightarrow> trim (c # s) = trim s"
  by (simp add: trim_def)

lemma trim_snoc_white:
  assumes "isWhiteSpace c"
  shows "trim (s @ [c]) = trim s"
proof (cases "\<forall>x \<in> set s. isWhiteSpace x")
  case True
  then have "trim s = []" by (rule trim_all_white)
  moreover have "trim (s @ [c]) = []"
    using True assms by (intro trim_all_white) auto
  ultimately show ?thesis by simp
next
  case False
  then obtain x where "x \<in> set s" "\<not> isWhiteSpace x"
    by blast
  then have d: "dropWhile isWhiteSpace (s @ [c]) = dropWhile isWhiteSpace s @ [c]"
    by (rule dropWhile_append1)
  show ?thesis
    unfolding trim_def d using assms by simp
qed

lemma trim_eq_Nil_iff: "trim s = [] \<longleftrightarrow> (\<forall>c \<in> set s. isWhiteSpace c)"
proof
  assume "trim s = []"
  then have "\<forall>x \<in> set (rev (dropWhile isWhiteSpace s)). isWhiteSpace x"
    by (simp add: trim_def dropWhile_eq_Nil_conv)
  then have all: "\<forall>x \<in> set (dropWhile isWhiteSpace s). isWhiteSpace x"
    by simp
  have "dropWhile isWhiteSpace s = []"
  proof (cases "dropWhile isWhiteSpace s")
    case Nil
    then show ?thesis .
  next
    case (Cons x xs)
    then have "\<not> isWhiteSpace x"
      using hd_dropWhile[of isWhiteSpace s] by simp
    moreover have "isWhiteSpace x" using all Cons by simp
    ultimately show ?thesis by simp
  qed
  then show "\<forall>c \<in> set s. isWhiteSpace c"
    by (simp add: dropWhile_eq_Nil_conv)
next
  assume "\<forall>c \<in> set s. isWhiteSpace c"
  then show "trim s = []" by (rule trim_all_white)
qed

lemma split_str_snoc:
  "split_str sep (s @ [c]) =
     (if c = sep then split_str sep s @ [[]]
      else butlast (split_str sep s) @ [last (split_str sep s) @ [c]])"
proof (induction s)
  case Nil
  show ?case by simp
next
  case (Cons d ds)
  obtain l ls where e: "split_str sep ds = l # ls"
    using split_str_not_Nil[of sep ds] by (cases "split_str sep ds") auto
  obtain l' ls' where e': "split_str sep (ds @ [c]) = l' # ls'"
    using split_str_not_Nil[of sep "ds @ [c]"] by (cases "split_str sep (ds @ [c])") auto
  show ?case
  proof (cases "d = sep")
    case True
    with Cons e show ?thesis by simp
  next
    case False
    show ?thesis
    proof (cases "c = sep")
      case True
      with Cons e e' False show ?thesis by auto
    next
      case c: False
      show ?thesis
      proof (cases ls)
        case Nil
        with Cons e e' False c show ?thesis by auto
      next
        case (Cons m ms)
        with Cons.IH e e' False c show ?thesis by auto
      qed
    qed
  qed
qed

lemma isWhiteSpace_nl: "isWhiteSpace nl"
  by (simp add: isWhiteSpace_def)

lemma trimmed_lines_Cons_white:
  assumes "isWhiteSpace c"
  shows "map trim (nonblank_lines (c # s)) = map trim (nonblank_lines s)"
proof -
  obtain l ls where e: "split_str nl s = l # ls"
    using split_str_not_Nil[of nl s] by (cases "split_str nl s") auto
  show ?thesis
  proof (cases "c = nl")
    case True
    then show ?thesis by (simp add: nonblank_lines_def trim_def)
  next
    case False
    with e assms show ?thesis by (simp add: nonblank_lines_def trim_Cons_white)
  qed
qed

lemma trimmed_lines_snoc_white:
  assumes "isWhiteSpace c"
  shows "map trim (nonblank_lines (s @ [c])) = map trim (nonblank_lines s)"
proof (cases "c = nl")
  case True
  then show ?thesis by (simp add: nonblank_lines_def split_str_snoc trim_def)
next
  case False
  let ?ls = "split_str nl s"
  have ls: "?ls = butlast ?ls @ [last ?ls]"
    using split_str_not_Nil[of nl s] by simp
  have "map trim (filter (\<lambda>line. trim line \<noteq> []) (butlast ?ls @ [last ?ls @ [c]]))
      = map trim (filter (\<lambda>line. trim line \<noteq> []) (butlast ?ls @ [last ?ls]))"
    using assms by (simp add: trim_snoc_white)
  with False ls show ?thesis
    by (simp add: nonblank_lines_def split_str_snoc)
qed

lemma trimmed_lines_dropWhile:
  "map trim (nonblank_lines (dropWhile isWhiteSpace s)) = map trim (nonblank_lines s)"
  by (induction s) (simp_all add: trimmed_lines_Cons_white)

lemma trimmed_lines_rev_dropWhile:
  "map trim (nonblank_lines (rev (dropWhile isWhiteSpace u))) = map trim (nonblank_lines (rev u))"
  by (induction u) (simp_all add: trimmed_lines_snoc_white)

lemma trimmed_lines_trim: "map trim (nonblank_lines (trim s)) = map trim (nonblank_lines s)"
proof -
  have t: "trim s = rev (dropWhile isWhiteSpace (rev (dropWhile isWhiteSpace s)))"
    by (simp add: trim_def)
  have "map trim (nonblank_lines (trim s))
      = map trim (nonblank_lines (rev (rev (dropWhile isWhiteSpace s))))"
    unfolding t by (rule trimmed_lines_rev_dropWhile)
  also have "\<dots> = map trim (nonblank_lines s)"
    by (simp add: trimmed_lines_dropWhile)
  finally show ?thesis .
qed

section \<open>Lemmas about \<open>indexOf\<close> and \<open>includes\<close>\<close>

lemma startsWith_occurs_at: "startsWith s p = occurs_at s p 0"
  by (simp add: startsWith_def occurs_at_def)

lemma occurs_at_Cons_Suc: "occurs_at (c # cs) p (Suc i) = occurs_at cs p i"
  by (simp add: occurs_at_def)

lemma indexOf_Some_iff:
  "indexOf s p = Some i \<longleftrightarrow>
     i \<le> length s \<and> occurs_at s p i \<and> (\<forall>j < i. \<not> occurs_at s p j)"
proof (induction s arbitrary: i)
  case Nil
  show ?case by (auto simp: occurs_at_def)
next
  case (Cons c cs)
  show ?case
  proof (cases "occurs_at (c # cs) p 0")
    case True
    then show ?thesis by (auto simp: startsWith_occurs_at)
  next
    case False
    show ?thesis
    proof (cases i)
      case 0
      with False show ?thesis by (simp add: startsWith_occurs_at)
    next
      case (Suc i')
      have "(\<forall>j < Suc i'. \<not> occurs_at (c # cs) p j) \<longleftrightarrow> (\<forall>j < i'. \<not> occurs_at cs p j)"
        using False by (auto simp: less_Suc_eq_0_disj occurs_at_Cons_Suc)
      with False Suc Cons.IH[of i'] show ?thesis
        by (auto simp: startsWith_occurs_at occurs_at_Cons_Suc)
    qed
  qed
qed

lemma indexOf_None_iff:
  "indexOf s p = None \<longleftrightarrow> (\<forall>j < Suc (length s). \<not> occurs_at s p j)"
proof (induction s)
  case Nil
  show ?case by (auto simp: occurs_at_def)
next
  case (Cons c cs)
  have "(\<forall>j < Suc (length (c # cs)). \<not> occurs_at (c # cs) p j) \<longleftrightarrow>
        \<not> occurs_at (c # cs) p 0 \<and> (\<forall>j < Suc (length cs). \<not> occurs_at cs p j)"
    unfolding All_less_Suc2[of "length (c # cs)"] by (simp add: occurs_at_Cons_Suc)
  with Cons show ?case by (simp add: startsWith_occurs_at)
qed

lemma occurs_at_iff_append:
  "(\<exists>i < Suc (length s). occurs_at s p i) \<longleftrightarrow> (\<exists>pre post. s = pre @ p @ post)"
proof
  assume "\<exists>i < Suc (length s). occurs_at s p i"
  then obtain i where i: "take (length p) (drop i s) = p"
    by (auto simp: occurs_at_def)
  have "drop i s = take (length p) (drop i s) @ drop (length p) (drop i s)"
    by (simp only: append_take_drop_id)
  then have "drop i s = p @ drop (length p) (drop i s)"
    by (simp only: i)
  moreover have "s = take i s @ drop i s"
    by (simp only: append_take_drop_id)
  ultimately have "s = take i s @ p @ drop (length p) (drop i s)"
    by (simp only:)
  then show "\<exists>pre post. s = pre @ p @ post" by blast
next
  assume "\<exists>pre post. s = pre @ p @ post"
  then obtain pre post where "s = pre @ p @ post" by blast
  then have "length pre < Suc (length s) \<and> occurs_at s p (length pre)"
    by (simp add: occurs_at_def)
  then show "\<exists>i < Suc (length s). occurs_at s p i" by blast
qed

lemma includes_str_iff: "includes_str s p \<longleftrightarrow> (\<exists>pre post. s = pre @ p @ post)"
  unfolding includes_str_def indexOf_None_iff occurs_at_iff_append[symmetric] by blast

lemma map_eq_infix_conv:
  "(\<exists>a b. map f m = a @ p @ b) \<longleftrightarrow> (\<exists>pre mid post. m = pre @ mid @ post \<and> map f mid = p)"
proof
  assume "\<exists>a b. map f m = a @ p @ b"
  then obtain a b where ab: "map f m = a @ (p @ b)" by blast
  have 1: "\<exists>us vs. m = us @ vs \<and> a = map f us \<and> p @ b = map f vs"
    using ab by (rule map_eq_append_conv[THEN iffD1])
  then obtain pre r where r: "m = pre @ r" "map f r = p @ b" by metis
  have "\<exists>us vs. r = us @ vs \<and> p = map f us \<and> b = map f vs"
    using r(2) by (rule map_eq_append_conv[THEN iffD1])
  then obtain mid post where "r = mid @ post" "map f mid = p" by metis
  with r(1) show "\<exists>pre mid post. m = pre @ mid @ post \<and> map f mid = p" by blast
next
  assume "\<exists>pre mid post. m = pre @ mid @ post \<and> map f mid = p"
  then obtain pre mid post where "m = pre @ mid @ post" "map f mid = p" by blast
  then have "map f m = map f pre @ p @ map f post" by simp
  then show "\<exists>a b. map f m = a @ p @ b" by blast
qed

lemma contains_haiku_iff: "contains_haiku m \<longleftrightarrow> includes_str (toLowerCase m) ''haiku''"
  unfolding contains_haiku_def includes_str_iff toLowerCase_def
  by (rule map_eq_infix_conv[symmetric])






section \<open>Lemmas about the stable sort\<close>

lemma sort_by_Nil: "sort_by cmp [] = []"
  by (simp add: sort_by_def)

lemma sort_by_Cons: "sort_by cmp (x # xs) = insert_by cmp x (sort_by cmp xs)"
  by (simp add: sort_by_def)



lemma mset_insert_by: "mset (insert_by cmp x xs) = add_mset x (mset xs)"
  by (induction xs) auto

lemma mset_sort_by: "mset (sort_by cmp xs) = mset xs"
  by (induction xs) (auto simp: sort_by_Nil sort_by_Cons mset_insert_by)

lemma set_insert_by: "set (insert_by cmp x xs) = insert x (set xs)"
  by (induction xs) auto

lemma sorted_wrt_insert_by:
  assumes total: "\<And>a b. cmp a b \<le> 0 \<or> cmp b a \<le> 0"
    and trans: "\<And>a b c. cmp a b \<le> 0 \<Longrightarrow> cmp b c \<le> 0 \<Longrightarrow> cmp a c \<le> 0"
    and sorted: "sorted_wrt (\<lambda>a b. cmp a b \<le> 0) xs"
  shows "sorted_wrt (\<lambda>a b. cmp a b \<le> 0) (insert_by cmp x xs)"
  using sorted
proof (induction xs)
  case Nil
  show ?case by simp
next
  case (Cons y ys)
  show ?case
  proof (cases "cmp x y \<le> 0")
    case True
    have "\<forall>z \<in> set ys. cmp x z \<le> 0"
      using Cons.prems True trans by auto
    with True Cons.prems show ?thesis by simp
  next
    case False
    then have "cmp y x \<le> 0" using total[of x y] by simp
    with False Cons show ?thesis by (auto simp: set_insert_by)
  qed
qed

lemma sorted_wrt_sort_by:
  assumes total: "\<And>a b. cmp a b \<le> 0 \<or> cmp b a \<le> 0"
    and trans: "\<And>a b c. cmp a b \<le> 0 \<Longrightarrow> cmp b c \<le> 0 \<Longrightarrow> cmp a c \<le> 0"
  shows "sorted_wrt (\<lambda>a b. cmp a b \<le> 0) (sort_by cmp xs)"
proof (induction xs)
  case Nil
  show ?case by (simp add: sort_by_Nil)
next
  case (Cons x xs)
  show ?case
    unfolding sort_by_Cons
    by (rule sorted_wrt_insert_by[OF total trans Cons.IH])
qed




section \<open>Lemmas about the scans of the patcher\<close>

lemma function_token: "substring s i (i + 8) = ''function'' \<longleftrightarrow> occurs_at s ''function'' i"
proof -
  have l: "length ''function'' = 8" by simp
  show ?thesis unfolding substring_def occurs_at_def l by simp
qed

lemma scanFunction_Some_iff: "scanFunction s w = Some f \<longleftrightarrow> nearest_function s w f"
proof (induction w)
  case 0
  show ?case
    unfolding nearest_function_def using function_token[of s 0] by auto
next
  case (Suc w)
  show ?case
  proof (cases "occurs_at s ''function'' (Suc w)")
    case True
    have "nearest_function s (Suc w) f \<longleftrightarrow> f = Suc w"
      unfolding nearest_function_def using True by (auto simp: le_Suc_eq)
    with True show ?thesis
      using function_token[of s "Suc w"] by auto
  next
    case False
    have "nearest_function s (Suc w) f \<longleftrightarrow> nearest_function s w f"
      unfolding nearest_function_def using False by (auto simp: le_Suc_eq)
    with False Suc show ?thesis
      using function_token[of s "Suc w"] by auto
  qed
qed

lemma scanFunction_None_iff:
  "scanFunction s w = None \<longleftrightarrow> (\<forall>j \<le> w. \<not> occurs_at s ''function'' j)"
proof (induction w)
  case 0
  show ?case using function_token[of s 0] by auto
next
  case (Suc w)
  show ?case
    using Suc function_token[of s "Suc w"] by (auto simp: le_Suc_eq)
qed

lemma scanOpenBrace_shift:
  "scanOpenBrace xs i = map_option ((+) i) (scanOpenBrace xs 0)"
proof (induction xs arbitrary: i)
  case Nil
  show ?case by simp
next
  case (Cons c cs)
  show ?case
    using Cons[of "Suc i"] Cons[of "Suc 0"] by (simp add: option.map_comp comp_def)
qed

lemma scanOpenBrace0_Some_iff:
  "scanOpenBrace xs 0 = Some n \<longleftrightarrow>
     n < length xs \<and> xs ! n = CHR ''{'' \<and> (\<forall>j < n. xs ! j \<noteq> CHR ''{'')"
proof (induction xs arbitrary: n)
  case Nil
  show ?case by simp
next
  case (Cons c cs)
  show ?case
  proof (cases "c = CHR ''{''")
    case True
    then show ?thesis by (cases n) auto
  next
    case False
    show ?thesis
    proof (cases n)
      case 0
      with False show ?thesis
        by (simp add: scanOpenBrace_shift[of cs "Suc 0"])
    next
      case (Suc m)
      have "(\<forall>j < Suc m. (c # cs) ! j \<noteq> CHR ''{'') \<longleftrightarrow> (\<forall>j < m. cs ! j \<noteq> CHR ''{'')"
        using False by (auto simp: All_less_Suc2)
      with False Suc Cons[of m] show ?thesis
        by (auto simp: scanOpenBrace_shift[of cs "Suc 0"])
    qed
  qed
qed

lemma scanOpenBrace0_None_iff: "scanOpenBrace xs 0 = None \<longleftrightarrow> CHR ''{'' \<notin> set xs"
  by (induction xs) (auto simp: scanOpenBrace_shift[of _ "Suc 0"])

lemma brace_depth_simps:
  "brace_depth [] = 0"
  "brace_depth (CHR ''{'' # cs) = brace_depth cs + 1"
  "brace_depth (CHR ''}'' # cs) = brace_depth cs - 1"
  "c \<noteq> CHR ''{'' \<Longrightarrow> c \<noteq> CHR ''}'' \<Longrightarrow> brace_depth (c # cs) = brace_depth cs"
  by (simp_all add: brace_depth_def)

lemma scanCloseBrace_shift:
  "scanCloseBrace xs i d = map_option ((+) i) (scanCloseBrace xs 0 d)"
proof (induction xs arbitrary: i d)
  case Nil
  show ?case by simp
next
  case (Cons c cs)
  show ?case
    using Cons[of "Suc i"] Cons[of "Suc 0"] by (simp add: option.map_comp comp_def)
qed


lemma scanCloseBrace0_None_iff:
  "1 \<le> d \<Longrightarrow>
   scanCloseBrace xs 0 d = None \<longleftrightarrow> (\<forall>j < length xs. d + brace_depth (take (Suc j) xs) \<noteq> 0)"
proof (induction xs arbitrary: d)
  case Nil
  show ?case by simp
next
  case (Cons c cs)
  note shift = scanCloseBrace_shift[of cs "Suc 0"]
  consider (lbrace) "c = CHR ''{''" | (rbrace_last) "c = CHR ''}''" "d = 1"
    | (rbrace) "c = CHR ''}''" "d \<noteq> 1" | (other) "c \<noteq> CHR ''{''" "c \<noteq> CHR ''}''"
    by blast
  then show ?case
  proof cases
    case lbrace
    have d: "1 \<le> d + 1" using Cons.prems by simp
    from lbrace Cons.prems Cons.IH[OF d] show ?thesis
      by (simp add: shift brace_depth_simps All_less_Suc2 algebra_simps)
  next
    case rbrace_last
    then show ?thesis by (simp add: brace_depth_simps All_less_Suc2)
  next
    case rbrace
    have d: "1 \<le> d - 1" using Cons.prems rbrace by simp
    from rbrace Cons.prems Cons.IH[OF d] show ?thesis
      by (simp add: shift brace_depth_simps All_less_Suc2 algebra_simps)
  next
    case other
    from other Cons.prems Cons.IH[OF Cons.prems] show ?thesis
      by (simp add: shift brace_depth_simps All_less_Suc2)
  qed
qed

lemma warningText_not_Nil: "warningText \<noteq> []"
  by (simp add: warningText_def)

lemma occurs_at_less_length: "p \<noteq> [] \<Longrightarrow> occurs_at s p i \<Longrightarrow> i < length s"
proof (rule ccontr)
  assume p: "p \<noteq> []" and o: "occurs_at s p i" and "\<not> i < length s"
  then have "drop i s = []" by simp
  with o have "p = []" by (simp add: occurs_at_def)
  with p show False by simp
qed

lemma indexOf_marker_Some_iff: "indexOf s warningText = Some w \<longleftrightarrow> first_marker s w"
  unfolding indexOf_Some_iff first_marker_def
  using occurs_at_less_length[OF warningText_not_Nil, of s w] by auto

lemma indexOf_marker_None_iff:
  "indexOf s warningText = None \<longleftrightarrow> \<not> (\<exists>pre post. s = pre @ warningText @ post)"
  using includes_str_iff[of s warningText] unfolding includes_str_def by blast

lemma marker_cases:
  "(\<exists>pre post. s = pre @ warningText @ post) \<longleftrightarrow> (\<exists>w. first_marker s w)"
proof -
  have "(\<exists>pre post. s = pre @ warningText @ post) \<longleftrightarrow> indexOf s warningText \<noteq> None"
    using indexOf_marker_None_iff[of s] by auto
  also have "\<dots> \<longleftrightarrow> (\<exists>w. indexOf s warningText = Some w)"
    by auto
  finally show ?thesis
    by (simp add: indexOf_marker_Some_iff)
qed

lemma scanOpenBrace_Some_iff:
  "scanOpenBrace (drop f s) f = Some b \<longleftrightarrow> first_open_brace s f b"
proof
  assume "scanOpenBrace (drop f s) f = Some b"
  then obtain n where b: "b = f + n" and n: "scanOpenBrace (drop f s) 0 = Some n"
    by (subst (asm) scanOpenBrace_shift) auto
  from n[unfolded scanOpenBrace0_Some_iff]
  have 1: "n < length (drop f s)" and 2: "drop f s ! n = CHR ''{''"
    and 3: "\<forall>j < n. drop f s ! j \<noteq> CHR ''{''" by auto
  from 1 have len: "f + n < length s" by simp
  have "\<forall>j. f \<le> j \<and> j < b \<longrightarrow> s ! j \<noteq> CHR ''{''"
  proof (intro allI impI)
    fix j assume j: "f \<le> j \<and> j < b"
    then have "j - f < n" using b by linarith
    with 3 have "drop f s ! (j - f) \<noteq> CHR ''{''" by blast
    moreover have "drop f s ! (j - f) = s ! j" using j len b by simp
    ultimately show "s ! j \<noteq> CHR ''{''" by simp
  qed
  moreover have "s ! b = CHR ''{''" using 2 len b by simp
  ultimately show "first_open_brace s f b"
    unfolding first_open_brace_def using len b by simp
next
  assume fo: "first_open_brace s f b"
  then have fb: "f \<le> b" and len: "b < length s" and at: "s ! b = CHR ''{''"
    and before: "\<forall>j. f \<le> j \<and> j < b \<longrightarrow> s ! j \<noteq> CHR ''{''"
    unfolding first_open_brace_def by auto
  have "\<forall>j < b - f. drop f s ! j \<noteq> CHR ''{''"
  proof (intro allI impI)
    fix j assume "j < b - f"
    then have "f \<le> f + j \<and> f + j < b" by simp
    with before have "s ! (f + j) \<noteq> CHR ''{''" by blast
    then show "drop f s ! j \<noteq> CHR ''{''" using len fb by simp
  qed
  moreover have "drop f s ! (b - f) = CHR ''{''" using at len fb by simp
  moreover have "b - f < length (drop f s)" using len fb by simp
  ultimately have "scanOpenBrace (drop f s) 0 = Some (b - f)"
    unfolding scanOpenBrace0_Some_iff by simp
  then show "scanOpenBrace (drop f s) f = Some b"
    using fb by (subst scanOpenBrace_shift) simp
qed

lemma in_set_drop_iff:
  "x \<in> set (drop n xs) \<longleftrightarrow> (\<exists>i. n \<le> i \<and> i < length xs \<and> xs ! i = x)"
proof
  assume "x \<in> set (drop n xs)"
  then obtain j where j: "j < length (drop n xs)" "drop n xs ! j = x"
    by (auto simp: in_set_conv_nth)
  then have "n \<le> n + j \<and> n + j < length xs \<and> xs ! (n + j) = x"
    by auto
  then show "\<exists>i. n \<le> i \<and> i < length xs \<and> xs ! i = x"
    by blast
next
  assume "\<exists>i. n \<le> i \<and> i < length xs \<and> xs ! i = x"
  then obtain i where i: "n \<le> i" "i < length xs" "xs ! i = x"
    by blast
  then have "i - n < length (drop n xs)" "drop n xs ! (i - n) = x"
    by auto
  then show "x \<in> set (drop n xs)"
    by (auto simp: in_set_conv_nth)
qed

lemma scanOpenBrace_None_iff:
  "scanOpenBrace (drop f s) f = None \<longleftrightarrow> (\<forall>j. f \<le> j \<and> j < length s \<longrightarrow> s ! j \<noteq> CHR ''{'')"
proof -
  have "scanOpenBrace (drop f s) f = None \<longleftrightarrow> CHR ''{'' \<notin> set (drop f s)"
    by (subst scanOpenBrace_shift) (simp add: scanOpenBrace0_None_iff)
  also have "\<dots> \<longleftrightarrow> (\<forall>j. f \<le> j \<and> j < length s \<longrightarrow> s ! j \<noteq> CHR ''{'')"
    by (auto simp: in_set_drop_iff)
  finally show ?thesis .
qed

lemma substring_from:
  "b < j \<Longrightarrow> substring s (Suc b) (Suc j) = take (Suc (j - Suc b)) (drop (Suc b) s)"
  by (simp add: substring_def Suc_diff_Suc)


lemma scanCloseBrace_None_iff:
  "scanCloseBrace (drop (b + 1) s) (b + 1) 1 = None \<longleftrightarrow>
     (\<forall>j. b < j \<and> j < length s \<longrightarrow> 1 + brace_depth (substring s (b + 1) (j + 1)) \<noteq> 0)"
proof -
  have "scanCloseBrace (drop (b + 1) s) (b + 1) 1 = None \<longleftrightarrow>
        (\<forall>j < length (drop (b + 1) s). 1 + brace_depth (take (Suc j) (drop (b + 1) s)) \<noteq> 0)"
    by (subst scanCloseBrace_shift) (simp add: scanCloseBrace0_None_iff)
  also have "\<dots> \<longleftrightarrow>
     (\<forall>j. b < j \<and> j < length s \<longrightarrow> 1 + brace_depth (substring s (b + 1) (j + 1)) \<noteq> 0)"
  proof (intro iffI allI impI)
    fix j
    assume a: "\<forall>j < length (drop (b + 1) s). 1 + brace_depth (take (Suc j) (drop (b + 1) s)) \<noteq> 0"
      and j: "b < j \<and> j < length s"
    then have "j - (b + 1) < length (drop (b + 1) s)" by auto
    with a have "1 + brace_depth (take (Suc (j - (b + 1))) (drop (b + 1) s)) \<noteq> 0" by blast
    then show "1 + brace_depth (substring s (b + 1) (j + 1)) \<noteq> 0"
      using j by (simp add: substring_from)
  next
    fix j
    assume a: "\<forall>j. b < j \<and> j < length s \<longrightarrow> 1 + brace_depth (substring s (b + 1) (j + 1)) \<noteq> 0"
      and j: "j < length (drop (b + 1) s)"
    then have "b < b + 1 + j \<and> b + 1 + j < length s" by auto
    with a have "1 + brace_depth (substring s (b + 1) (b + 1 + j + 1)) \<noteq> 0" by blast
    then show "1 + brace_depth (take (Suc j) (drop (b + 1) s)) \<noteq> 0"
      using substring_from[of b "b + 1 + j" s] by simp
  qed
  finally show ?thesis .
qed

lemma patch_no_marker:
  "indexOf s warningText = None \<Longrightarrow>
   patchCliVersionCheck s =
     Inr \<lparr>patched = False, content = s,
          message = Some ''Warning text not found - version check may not exist''\<rparr>"
  by (simp add: patchCliVersionCheck_def)

lemma patch_no_function:
  "indexOf s warningText = Some w \<Longrightarrow> scanFunction s w = None \<Longrightarrow>
   patchCliVersionCheck s =
     Inl (Error ''Could not find function declaration before warning text'')"
  by (simp add: patchCliVersionCheck_def)

lemma patch_no_open:
  "indexOf s warningText = Some w \<Longrightarrow> scanFunction s w = Some f \<Longrightarrow>
   scanOpenBrace (drop f s) f = None \<Longrightarrow>
   patchCliVersionCheck s =
     Inl (Error ''Could not find opening brace after function declaration'')"
  by (simp add: patchCliVersionCheck_def)

lemma patch_no_close:
  "indexOf s warningText = Some w \<Longrightarrow> scanFunction s w = Some f \<Longrightarrow>
   scanOpenBrace (drop f s) f = Some b \<Longrightarrow>
   scanCloseBrace (drop (b + 1) s) (b + 1) 1 = None \<Longrightarrow>
   patchCliVersionCheck s = Inl (Error ''Could not find matching closing brace'')"
  by (simp add: patchCliVersionCheck_def)

lemma patch_done:
  "indexOf s warningText = Some w \<Longrightarrow> scanFunction s w = Some f \<Longrightarrow>
   scanOpenBrace (drop f s) f = Some b \<Longrightarrow>
   scanCloseBrace (drop (b + 1) s) (b + 1) 1 = Some c \<Longrightarrow>
   patchCliVersionCheck s =
     Inr \<lparr>patched = True,
          content = take f s @ substring s f (b + 1)
                    @ '' /* Version check disabled by patch */ }'' @ drop (c + 1) s,
          message = Some ''Version check successfully patched''\<rparr>"
  by (simp add: patchCliVersionCheck_def substring_def)

lemma no_enclosing_function_iff: "no_enclosing_function s w \<longleftrightarrow> scanFunction s w = None"
  by (simp add: no_enclosing_function_def scanFunction_None_iff)

lemma no_opening_brace_iff:
  "no_opening_brace s w \<longleftrightarrow>
     (\<exists>f. scanFunction s w = Some f \<and> scanOpenBrace (drop f s) f = None)"
  unfolding no_opening_brace_def scanFunction_Some_iff scanOpenBrace_None_iff
  by (rule refl)

lemma unbalanced_braces_iff:
  "unbalanced_braces s w \<longleftrightarrow>
     (\<exists>f b. scanFunction s w = Some f \<and> scanOpenBrace (drop f s) f = Some b
        \<and> scanCloseBrace (drop (b + 1) s) (b + 1) 1 = None)"
  unfolding unbalanced_braces_def scanFunction_Some_iff scanOpenBrace_Some_iff
    scanCloseBrace_None_iff
  by (rule refl)




lemma scanFunction_unfold:
  "scanFunction s i =
     (if substring s i (i + 8) = ''function'' then Some i
      else if i = 0 then None else scanFunction s (i - 1))"
  by (cases i) simp_all












section \<open>Properties of the report formatter\<close>

lemma matches_header_iff:
  "matches_header line \<longleftrightarrow>
     (\<exists>n w rest. 0 < n \<and> line = replicate n (CHR ''#'') @ w # rest \<and> isWhiteSpace w)"
  (is "?L = ?R")
proof
  assume L: ?L
  let ?h = "takeWhile (\<lambda>c. c = CHR ''#'') line"
  let ?r = "dropWhile (\<lambda>c. c = CHR ''#'') line"
  from L obtain w rest where r: "?r = w # rest" and w: "isWhiteSpace w" and h: "?h \<noteq> []"
    by (auto simp: matches_header_def split: list.splits)
  have "\<forall>c \<in> set ?h. c = CHR ''#''"
    by (auto dest: set_takeWhileD)
  then have hrep: "replicate (length ?h) (CHR ''#'') = ?h"
    by (rule replicate_length_same)
  have "line = ?h @ ?r"
    by simp
  also have "\<dots> = replicate (length ?h) (CHR ''#'') @ w # rest"
    by (simp only: hrep r)
  finally have "line = replicate (length ?h) (CHR ''#'') @ w # rest" .
  moreover have "0 < length ?h"
    using h by simp
  ultimately show ?R
    using w by blast
next
  assume ?R
  then obtain n w rest where n: "0 < n" and l: "line = replicate n (CHR ''#'') @ w # rest"
    and w: "isWhiteSpace w" by blast
  have wh: "w \<noteq> CHR ''#''" using w by (auto simp: isWhiteSpace_def)
  have "takeWhile (\<lambda>c. c = CHR ''#'') line = replicate n (CHR ''#'')"
    unfolding l using wh by (simp add: takeWhile_append)
  moreover have "dropWhile (\<lambda>c. c = CHR ''#'') line = w # rest"
    unfolding l using wh by (simp add: dropWhile_append)
  ultimately show ?L using n w by (simp add: matches_header_def)
qed

text \<open>
  C8.  The lines of \<open>indentHeaders text\<close> are the lines of \<open>text\<close>, one for one and in
  order, where a line that starts with one or more \<open>#\<close> followed by a white-space unit
  has got exactly one more \<open>#\<close> in front and every other line is unchanged (a run of
  \<open>#\<close> with no white space after it among them).  On \<open># H\<newline>body\<close> one application
  gives \<open>## H\<newline>body\<close> and two give \<open>### H\<newline>body\<close>.
\<close>

theorem indentHeaders_lines:
  "split_str nl (indentHeaders text) =
     map (\<lambda>line. if (\<exists>n w rest. 0 < n \<and> line = replicate n (CHR ''#'') @ w # rest
                                 \<and> isWhiteSpace w)
                  then CHR ''#'' # line else line)
         (split_str nl text)
   \<and> indentHeaders text = join [nl] (split_str nl (indentHeaders text))
   \<and> indentHeaders ''#NoSpace'' = ''#NoSpace''
   \<and> indentHeaders ''# H\<newline>body'' = ''## H\<newline>body''
   \<and> indentHeaders (indentHeaders ''# H\<newline>body'') = ''### H\<newline>body''"
proof -
  let ?f = "\<lambda>line. if matches_header line then CHR ''#'' # line else line"
  have "\<forall>l \<in> set (map ?f (split_str nl text)). nl \<notin> set l"
    using split_str_no_sep[of _ nl "text"] by auto
  then have "split_str nl (join [nl] (map ?f (split_str nl text))) = map ?f (split_str nl text)"
    by (intro split_str_join) (simp_all add: split_str_not_Nil)
  then have lines: "split_str nl (indentHeaders text) = map ?f (split_str nl text)"
    by (simp add: indentHeaders_def)
  have ex: "indentHeaders ''#NoSpace'' = ''#NoSpace''"
    "indentHeaders ''# H\<newline>body'' = ''## H\<newline>body''"
    "indentHeaders ''## H\<newline>body'' = ''### H\<newline>body''"
    by (simp_all add: indentHeaders_def matches_header_def isWhiteSpace_def)
  have f: "?f = (\<lambda>line. if (\<exists>n w rest. 0 < n \<and> line = replicate n (CHR ''#'') @ w # rest
                                     \<and> isWhiteSpace w)
                      then CHR ''#'' # line else line)"
    by (simp only: matches_header_iff)
  have rejoin: "indentHeaders text = join [nl] (split_str nl (indentHeaders text))"
    by (simp only: join_split_str)
  have twice: "indentHeaders (indentHeaders ''# H\<newline>body'') = ''### H\<newline>body''"
    by (simp only: ex)
  show ?thesis
    using lines[unfolded f] rejoin ex(1,2) twice by blast
qed

lemma header_line_iff: "matches_header line \<longleftrightarrow> header_line line"
  unfolding header_line_def by (rule matches_header_iff)

lemma header_line_hash:
  assumes "header_line line"
  shows "header_line (CHR ''#'' # line)"
proof -
  from assms obtain n w rest where "0 < n" "line = replicate n (CHR ''#'') @ w # rest"
    "isWhiteSpace w" unfolding header_line_def by blast
  then have "0 < Suc n \<and> CHR ''#'' # line = replicate (Suc n) (CHR ''#'') @ w # rest
      \<and> isWhiteSpace w" by simp
  then show ?thesis unfolding header_line_def by blast
qed


lemma indentHeaders_split:
  "split_str nl (indentHeaders text) =
     map (\<lambda>line. if header_line line then CHR ''#'' # line else line) (split_str nl text)"
proof -
  let ?f = "\<lambda>line. if header_line line then CHR ''#'' # line else line"
  have "\<forall>l \<in> set (map ?f (split_str nl text)). nl \<notin> set l"
    using split_str_no_sep[of _ nl "text"] by auto
  then have "split_str nl (join [nl] (map ?f (split_str nl text))) = map ?f (split_str nl text)"
    by (intro split_str_join) (simp_all add: split_str_not_Nil)
  then show ?thesis
    by (simp add: indentHeaders_def header_line_iff)
qed

lemma indentHeaders_once:
  "indentHeaders text =
     join [nl] (map (\<lambda>line. if header_line line then CHR ''#'' # line else line)
                    (split_str nl text))"
  by (simp add: indentHeaders_def header_line_iff)

lemma indentHeaders_twice:
  "indentHeaders (indentHeaders text) =
     join [nl] (map (\<lambda>line. if header_line line then ''##'' @ line else line)
                    (split_str nl text))"
proof -
  let ?f = "\<lambda>line. if header_line line then CHR ''#'' # line else line"
  have "indentHeaders (indentHeaders text)
        = join [nl] (map ?f (split_str nl (indentHeaders text)))"
    by (rule indentHeaders_once)
  also have "\<dots> = join [nl] (map ?f (map ?f (split_str nl text)))"
    by (simp only: indentHeaders_split)
  also have "map ?f (map ?f (split_str nl text))
        = map (\<lambda>line. if header_line line then ''##'' @ line else line) (split_str nl text)"
    by (simp add: header_line_hash)
  finally show ?thesis .
qed

lemma breaks_indented_plain:
  assumes "nl \<notin> set t"
  shows "breaks_indented ind t"
  using assms by (auto simp: breaks_indented_def)

lemma breaks_indented_append:
  assumes "breaks_indented ind a" and "breaks_indented ind b"
  shows "breaks_indented ind (a @ b)"
  unfolding breaks_indented_def
proof (intro allI impI)
  fix pre post
  assume "a @ b = pre @ nl # post"
  then consider us where "a = pre @ us" "us @ b = nl # post"
    | us where "a @ us = pre" "b = us @ nl # post"
    by (auto simp: append_eq_append_conv2)
  then show "prefix ind post"
  proof cases
    case 1
    show ?thesis
    proof (cases us)
      case Nil
      with 1 have "b = [] @ nl # post" by simp
      with assms(2) show ?thesis unfolding breaks_indented_def by blast
    next
      case (Cons c cs)
      with 1 have "a = pre @ nl # cs" "post = cs @ b" by simp_all
      with assms(1) have "prefix ind cs" unfolding breaks_indented_def by blast
      with \<open>post = cs @ b\<close> show ?thesis by (simp add: prefix_prefix)
    qed
  next
    case 2
    with assms(2) show ?thesis unfolding breaks_indented_def by blast
  qed
qed

lemma breaks_indented_break:
  assumes "nl \<notin> set ind"
  shows "breaks_indented ind (nl # ind)"
  unfolding breaks_indented_def
proof (intro allI impI)
  fix pre post
  assume e: "nl # ind = pre @ nl # post"
  show "prefix ind post"
  proof (cases pre)
    case Nil
    with e show ?thesis by simp
  next
    case (Cons c cs)
    with e have "ind = cs @ nl # post" by simp
    with assms show ?thesis by simp
  qed
qed

lemma breaks_indented_less:
  assumes "breaks_indented (ind @ gap) t"
  shows "breaks_indented ind t"
  unfolding breaks_indented_def
proof (intro allI impI)
  fix pre post
  assume "t = pre @ nl # post"
  with assms have "prefix (ind @ gap) post"
    unfolding breaks_indented_def by blast
  then show "prefix ind post" by (rule append_prefixD)
qed

lemma breaks_indented_join:
  assumes "breaks_indented ind sep" and "\<forall>x \<in> set xs. breaks_indented ind x"
  shows "breaks_indented ind (join sep xs)"
  using assms
proof (induction sep xs rule: join.induct)
  case (1 sep)
  show ?case by (simp add: breaks_indented_plain)
next
  case (2 sep x)
  then show ?case by simp
next
  case (3 sep x y ys)
  from 3 have "breaks_indented ind x" and "breaks_indented ind (join sep (y # ys))"
    and "breaks_indented ind sep"
    by simp_all
  then have "breaks_indented ind (x @ sep @ join sep (y # ys))"
    by (intro breaks_indented_append)
  then show ?case by simp
qed

lemma hexDigit_not_nl:
  assumes "n < 16"
  shows "hexDigit n \<noteq> nl"
proof -
  from assms have "hexDigit n \<in> set ''0123456789abcdef''"
    unfolding hexDigit_def by (intro nth_mem) simp
  then show ?thesis by auto
qed

lemma quoteUnit_no_nl: "nl \<notin> set (quoteUnit c)"
proof -
  have "(of_char c :: nat) < 256" by simp
  then have "(of_char c :: nat) div 16 < 16"
    by (intro less_mult_imp_div_less) simp
  then have 1: "hexDigit (of_char c div 16) \<noteq> nl" by (rule hexDigit_not_nl)
  have "(of_char c :: nat) mod 16 < 16" by simp
  then have 2: "hexDigit (of_char c mod 16) \<noteq> nl" by (rule hexDigit_not_nl)
  show ?thesis
    using 1 2 1[symmetric] 2[symmetric] by (simp add: quoteUnit_def)
qed

lemma QuoteJSONString_no_nl: "nl \<notin> set (QuoteJSONString s)"
  by (simp add: QuoteJSONString_def quoteUnit_no_nl)

lemma SerializeJSONProperty_indented:
  assumes num: "\<forall>x. nl \<notin> set (num x)" and gap: "nl \<notin> set gap"
  shows "nl \<notin> set ind \<Longrightarrow> breaks_indented ind (SerializeJSONProperty num gap ind v)"
proof (induction v arbitrary: ind)
  case JNull
  show ?case by (simp add: breaks_indented_plain)
next
  case (JBool b)
  show ?case by (simp add: breaks_indented_plain)
next
  case (JNumber x)
  show ?case using num by (simp add: breaks_indented_plain)
next
  case (JString s)
  show ?case by (simp add: breaks_indented_plain QuoteJSONString_no_nl)
next
  case (JArray vs)
  let ?ind = "ind @ gap"
  let ?partial = "map (SerializeJSONProperty num gap ?ind) vs"
  from JArray.prems gap have ind': "nl \<notin> set ?ind" by simp
  have el: "\<forall>x \<in> set ?partial. breaks_indented ind x"
    using JArray.IH[OF _ ind'] by (auto intro: breaks_indented_less)
  have brk': "breaks_indented ind (nl # ?ind)"
    using breaks_indented_break[OF ind'] by (rule breaks_indented_less)
  have brk: "breaks_indented ind (nl # ind)"
    using JArray.prems by (rule breaks_indented_break)
  have sep: "breaks_indented ind ('','' @ nl # ?ind)"
    by (intro breaks_indented_append brk' breaks_indented_plain) simp
  have 1: "breaks_indented ind (''['' @ join '','' ?partial @ '']'')"
    by (intro breaks_indented_append breaks_indented_join el breaks_indented_plain) simp_all
  have "breaks_indented ind
          (''['' @ (nl # ?ind) @ join ('','' @ nl # ?ind) ?partial @ (nl # ind) @ '']'')"
    by (intro breaks_indented_append breaks_indented_join el sep brk brk'
        breaks_indented_plain) simp_all
  with 1 show ?case
    by (cases "gap = []") (simp_all add: Let_def breaks_indented_plain)
next
  case (JObject ms)
  let ?ind = "ind @ gap"
  let ?partial = "map (\<lambda>(P, v). QuoteJSONString P @ '':'' @ (if gap \<noteq> [] then '' '' else [])
                                    @ SerializeJSONProperty num gap ?ind v) ms"
  from JObject.prems gap have ind': "nl \<notin> set ?ind" by simp
  have el: "\<forall>x \<in> set ?partial. breaks_indented ind x"
  proof
    fix x assume "x \<in> set ?partial"
    then obtain P v where m: "(P, v) \<in> set ms"
      and x: "x = QuoteJSONString P @ '':'' @ (if gap \<noteq> [] then '' '' else [])
                  @ SerializeJSONProperty num gap ?ind v"
      by auto
    from m have "breaks_indented ?ind (SerializeJSONProperty num gap ?ind v)"
      by (intro JObject.IH[OF _ _ ind', of "(P, v)"]) simp_all
    then have val: "breaks_indented ind (SerializeJSONProperty num gap ?ind v)"
      by (rule breaks_indented_less)
    have key: "breaks_indented ind (QuoteJSONString P)"
      by (rule breaks_indented_plain) (rule QuoteJSONString_no_nl)
    have colon: "breaks_indented ind '':''"
      "breaks_indented ind (if gap \<noteq> [] then '' '' else [])"
      by (simp_all add: breaks_indented_plain)
    show "breaks_indented ind x"
      unfolding x by (intro breaks_indented_append key colon val)
  qed
  have brk': "breaks_indented ind (nl # ?ind)"
    using breaks_indented_break[OF ind'] by (rule breaks_indented_less)
  have brk: "breaks_indented ind (nl # ind)"
    using JObject.prems by (rule breaks_indented_break)
  have sep: "breaks_indented ind ('','' @ nl # ?ind)"
    by (intro breaks_indented_append brk' breaks_indented_plain) simp
  have 1: "breaks_indented ind (''{'' @ join '','' ?partial @ ''}'')"
    by (intro breaks_indented_append breaks_indented_join el breaks_indented_plain) simp_all
  have "breaks_indented ind
          (''{'' @ (nl # ?ind) @ join ('','' @ nl # ?ind) ?partial @ (nl # ind) @ ''}'')"
    by (intro breaks_indented_append breaks_indented_join el sep brk brk'
        breaks_indented_plain) simp_all
  with 1 show ?case
    by (cases "gap = []") (simp_all add: Let_def breaks_indented_plain)
qed

lemma join_Cons: "join sep (x # xs) = x @ concat (map (\<lambda>y. sep @ y) xs)"
  by (induction xs arbitrary: x) simp_all

lemma JSON_stringify_object:
  "JSON_stringify num (JObject ((k, v) # ms)) =
     ''{'' @ [nl] @ ''  '' @ QuoteJSONString k @ '': ''
     @ SerializeJSONProperty num ''  '' ''  '' v
     @ concat (map (\<lambda>(k, v). '','' @ [nl] @ ''  '' @ QuoteJSONString k @ '': ''
                                @ SerializeJSONProperty num ''  '' ''  '' v) ms)
     @ [nl] @ ''}''"
  by (simp add: JSON_stringify_def Let_def join_Cons comp_def case_prod_unfold)

lemma JSON_stringify_array:
  "JSON_stringify num (JArray (v # vs)) =
     ''['' @ [nl] @ ''  '' @ SerializeJSONProperty num ''  '' ''  '' v
     @ concat (map (\<lambda>v. '','' @ [nl] @ ''  '' @ SerializeJSONProperty num ''  '' ''  '' v) vs)
     @ [nl] @ '']''"
  by (simp add: JSON_stringify_def Let_def join_Cons comp_def)

text \<open>
  C9.  \<open>formatOutput\<close> yields one document made of, in this order: the title line with
  the version label, the release date line, the user message section, the system
  prompt section, and the tools section.  The user message and the system prompt are
  there line for line, with exactly one more \<open>#\<close> in front of each line that starts with
  one or more \<open>#\<close> followed by a white-space unit and every other line unchanged.  In
  the tools section a tool is a \<open>##\<close> subheading with its name, then the lines of its
  description with exactly two more \<open>#\<close> in front of each such header line, then its
  schema as \<open>JSON.stringify\<close> prints it with indentation 2; two consecutive tools are
  separated by a horizontal rule; for the empty tool list the section heading is still
  there and its content is empty.

  The schema is printed with indentation: an object with members is an opening brace,
  each member on a line of its own that starts with two spaces, a comma at the end of
  the line between two members, and the closing brace on a line of its own; an array
  likewise, with brackets; the empty object and the empty array are \<open>{}\<close> and \<open>[]\<close>.
  In a value printed at an indentation of \<open>n\<close> spaces every line break is followed by
  \<open>n\<close> spaces, provided that no number's text holds a line break.
\<close>

theorem formatOutput_sections:
  fixes d :: "json output_data" and t u :: "json tool"
  shows "formatOutput (JSON_stringify num) d =
     ''# Claude Code Version '' @ versionLabel d @ ''\<newline>\<newline>''
     @ ''Release Date: '' @ releaseDate d @ ''\<newline>\<newline>''
     @ ''# User Message\<newline>\<newline>''
     @ join [nl] (map (\<lambda>line. if header_line line then CHR ''#'' # line else line)
                      (split_str nl (userMessage d)))
     @ ''\<newline>\<newline>''
     @ ''# System Prompt\<newline>\<newline>''
     @ join [nl] (map (\<lambda>line. if header_line line then CHR ''#'' # line else line)
                      (split_str nl (systemPrompt d)))
     @ ''\<newline>\<newline>''
     @ ''# Tools\<newline>\<newline>'' @ formatTools (JSON_stringify num) (od_tools d) @ ''\<newline>''
   \<and> formatTools (JSON_stringify num) ([] :: json tool list) = []
   \<and> formatTools (JSON_stringify num) [t] =
       ''## '' @ name t @ ''\<newline>\<newline>''
       @ join [nl] (map (\<lambda>line. if header_line line then ''##'' @ line else line)
                        (split_str nl (description t)))
       @ ''\<newline>'' @ JSON_stringify num (input_schema t)
   \<and> formatTools (JSON_stringify num) (t # u # ts) =
       formatTools (JSON_stringify num) [t] @ ''\<newline>\<newline>---\<newline>\<newline>''
       @ formatTools (JSON_stringify num) (u # ts)
   \<and> formatOutput (JSON_stringify num) (d\<lparr>od_tools := []\<rparr>) =
       ''# Claude Code Version '' @ versionLabel d @ ''\<newline>\<newline>''
       @ ''Release Date: '' @ releaseDate d @ ''\<newline>\<newline>''
       @ ''# User Message\<newline>\<newline>''
       @ join [nl] (map (\<lambda>line. if header_line line then CHR ''#'' # line else line)
                        (split_str nl (userMessage d)))
       @ ''\<newline>\<newline>''
       @ ''# System Prompt\<newline>\<newline>''
       @ join [nl] (map (\<lambda>line. if header_line line then CHR ''#'' # line else line)
                        (split_str nl (systemPrompt d)))
       @ ''\<newline>\<newline>''
       @ ''# Tools\<newline>\<newline>'' @ ''\<newline>''
   \<and> JSON_stringify num (JObject []) = ''{}''
   \<and> JSON_stringify num (JObject ((k, v) # ms)) =
       ''{'' @ [nl] @ ''  '' @ QuoteJSONString k @ '': ''
       @ SerializeJSONProperty num ''  '' ''  '' v
       @ concat (map (\<lambda>(k, v). '','' @ [nl] @ ''  '' @ QuoteJSONString k @ '': ''
                                  @ SerializeJSONProperty num ''  '' ''  '' v) ms)
       @ [nl] @ ''}''
   \<and> JSON_stringify num (JArray []) = ''[]''
   \<and> JSON_stringify num (JArray (v # vs)) =
       ''['' @ [nl] @ ''  '' @ SerializeJSONProperty num ''  '' ''  '' v
       @ concat (map (\<lambda>v. '','' @ [nl] @ ''  '' @ SerializeJSONProperty num ''  '' ''  '' v) vs)
       @ [nl] @ '']''
   \<and> ((\<forall>x. nl \<notin> set (num x)) \<longrightarrow>
        breaks_indented (replicate n (CHR '' ''))
          (SerializeJSONProperty num ''  '' (replicate n (CHR '' '')) j))"
proof -
  have doc: "formatOutput (JSON_stringify num) d =
     ''# Claude Code Version '' @ versionLabel d @ ''\<newline>\<newline>''
     @ ''Release Date: '' @ releaseDate d @ ''\<newline>\<newline>''
     @ ''# User Message\<newline>\<newline>'' @ indentHeaders (userMessage d) @ ''\<newline>\<newline>''
     @ ''# System Prompt\<newline>\<newline>'' @ indentHeaders (systemPrompt d) @ ''\<newline>\<newline>''
     @ ''# Tools\<newline>\<newline>'' @ formatTools (JSON_stringify num) (od_tools d) @ ''\<newline>''" for d :: "json output_data"
    by (simp add: formatOutput_def Let_def)
  have none: "formatTools (JSON_stringify num) ([] :: json tool list) = []"
    by (simp add: formatTools_def)
  have one: "formatTools (JSON_stringify num) [t] =
       ''## '' @ name t @ ''\<newline>\<newline>'' @ indentHeaders (indentHeaders (description t))
       @ ''\<newline>'' @ JSON_stringify num (input_schema t)"
    by (simp add: formatTools_def Let_def)
  have more: "formatTools (JSON_stringify num) (t # u # ts) =
       formatTools (JSON_stringify num) [t] @ ''\<newline>\<newline>---\<newline>\<newline>''
       @ formatTools (JSON_stringify num) (u # ts)"
    by (simp add: formatTools_def Let_def)
  have empty: "JSON_stringify num (JObject []) = ''{}''" "JSON_stringify num (JArray []) = ''[]''"
    by (simp_all add: JSON_stringify_def)
  have once: "indentHeaders s
      = join [nl] (map (\<lambda>line. if header_line line then CHR ''#'' # line else line)
                       (split_str nl s))" for s
    by (rule indentHeaders_once)
  have ind: "breaks_indented (replicate n (CHR '' ''))
          (SerializeJSONProperty num ''  '' (replicate n (CHR '' '')) j)"
    if "\<forall>x. nl \<notin> set (num x)"
    using that by (intro SerializeJSONProperty_indented) simp_all
  show ?thesis
    apply (intro conjI impI)
    subgoal by (simp only: doc once)
    subgoal by (rule none)
    subgoal by (simp only: one indentHeaders_twice)
    subgoal by (rule more)
    subgoal using doc[of "d\<lparr>od_tools := []\<rparr>"] by (simp add: none once)
    subgoal by (rule empty)
    subgoal by (rule JSON_stringify_object)
    subgoal by (rule empty)
    subgoal by (rule JSON_stringify_array)
    subgoal by (rule ind)
    done
qed

theorem formatOutput_sections_witness:
  "formatOutput (JSON_stringify (\<lambda>x. ''0''))
     \<lparr>versionLabel = ''1.0.0'', releaseDate = ''2024-01-01'',
      userMessage = ''# User Header\<newline>Test message'',
      systemPrompt = ''# System Header\<newline>You are Claude'',
      od_tools = [\<lparr>name = ''test_tool'', description = ''# Description\<newline>## Details'',
                   input_schema = JObject [(''type'', JString ''object''),
                     (''properties'', JObject [(''field'', JObject [(''type'', JString ''string'')])])]\<rparr>]\<rparr>
   = join [nl]
      [''# Claude Code Version 1.0.0'',
       [],
       ''Release Date: 2024-01-01'',
       [],
       ''# User Message'',
       [],
       ''## User Header'',
       ''Test message'',
       [],
       ''# System Prompt'',
       [],
       ''## System Header'',
       ''You are Claude'',
       [],
       ''# Tools'',
       [],
       ''## test_tool'',
       [],
       ''### Description'',
       ''#### Details'',
       ''{'',
       ''  '' @ [CHR 0x22] @ ''type'' @ [CHR 0x22] @ '': '' @ [CHR 0x22] @ ''object'' @ [CHR 0x22] @ '','',
       ''  '' @ [CHR 0x22] @ ''properties'' @ [CHR 0x22] @ '': {'',
       ''    '' @ [CHR 0x22] @ ''field'' @ [CHR 0x22] @ '': {'',
       ''      '' @ [CHR 0x22] @ ''type'' @ [CHR 0x22] @ '': '' @ [CHR 0x22] @ ''string'' @ [CHR 0x22],
       ''    }'',
       ''  }'',
       ''}'',
       []]
   \<and> breaks_indented ''  ''
        (SerializeJSONProperty (\<lambda>x. ''0'') ''  '' ''  ''
           (JObject [(''field'', JObject [(''type'', JString ''string'')])]))"
proof -
  let ?schema = "JObject [(''type'', JString ''object''),
                     (''properties'', JObject [(''field'', JObject [(''type'', JString ''string'')])])]"
  let ?t = "\<lparr>name = ''test_tool'', description = ''# Description\<newline>## Details'',
                   input_schema = ?schema\<rparr>"
  let ?d = "\<lparr>versionLabel = ''1.0.0'', releaseDate = ''2024-01-01'',
      userMessage = ''# User Header\<newline>Test message'',
      systemPrompt = ''# System Header\<newline>You are Claude'',
      od_tools = [?t]\<rparr>"
  note inst = formatOutput_sections[where num = "\<lambda>x. ''0''" and d = ?d and t = ?t and n = 2
      and j = "JObject [(''field'', JObject [(''type'', JString ''string'')])]"]
  have rep: "replicate 2 (CHR '' '') = ''  ''"
    by (simp add: numeral_2_eq_2)
  have h: "header_line ''# User Header''" "\<not> header_line ''Test message''"
    "header_line ''# System Header''" "\<not> header_line ''You are Claude''"
    "header_line ''# Description''" "header_line ''## Details''"
    by (simp_all add: header_line_iff[symmetric] matches_header_def isWhiteSpace_def)
  have schema: "JSON_stringify (\<lambda>x. ''0'') ?schema = join [nl]
      [''{'',
       ''  '' @ [CHR 0x22] @ ''type'' @ [CHR 0x22] @ '': '' @ [CHR 0x22] @ ''object'' @ [CHR 0x22] @ '','',
       ''  '' @ [CHR 0x22] @ ''properties'' @ [CHR 0x22] @ '': {'',
       ''    '' @ [CHR 0x22] @ ''field'' @ [CHR 0x22] @ '': {'',
       ''      '' @ [CHR 0x22] @ ''type'' @ [CHR 0x22] @ '': '' @ [CHR 0x22] @ ''string'' @ [CHR 0x22],
       ''    }'',
       ''  }'',
       ''}'']"
    by (simp add: JSON_stringify_def QuoteJSONString_def quoteUnit_def)
  note doc = inst[THEN conjunct1]
  note one = inst[THEN conjunct2, THEN conjunct2, THEN conjunct1]
  from inst have "breaks_indented (replicate 2 (CHR '' ''))
          (SerializeJSONProperty (\<lambda>x. ''0'') ''  '' (replicate 2 (CHR '' ''))
             (JObject [(''field'', JObject [(''type'', JString ''string'')])]))"
    by simp
  then have ind: "breaks_indented ''  ''
        (SerializeJSONProperty (\<lambda>x. ''0'') ''  '' ''  ''
           (JObject [(''field'', JObject [(''type'', JString ''string'')])]))"
    by (simp only: rep)
  have "formatOutput (JSON_stringify (\<lambda>x. ''0'')) ?d = join [nl]
      [''# Claude Code Version 1.0.0'',
       [],
       ''Release Date: 2024-01-01'',
       [],
       ''# User Message'',
       [],
       ''## User Header'',
       ''Test message'',
       [],
       ''# System Prompt'',
       [],
       ''## System Header'',
       ''You are Claude'',
       [],
       ''# Tools'',
       [],
       ''## test_tool'',
       [],
       ''### Description'',
       ''#### Details'',
       ''{'',
       ''  '' @ [CHR 0x22] @ ''type'' @ [CHR 0x22] @ '': '' @ [CHR 0x22] @ ''object'' @ [CHR 0x22] @ '','',
       ''  '' @ [CHR 0x22] @ ''properties'' @ [CHR 0x22] @ '': {'',
       ''    '' @ [CHR 0x22] @ ''field'' @ [CHR 0x22] @ '': {'',
       ''      '' @ [CHR 0x22] @ ''type'' @ [CHR 0x22] @ '': '' @ [CHR 0x22] @ ''string'' @ [CHR 0x22],
       ''    }'',
       ''  }'',
       ''}'',
       []]"
    unfolding doc by (simp add: one h schema)
  with ind show ?thesis by (rule conjI[rotated])
qed

section \<open>Properties of the content extractor\<close>

text \<open>
  C6.  \<open>extractUserMessage\<close> has no failing branch (its result type is a plain string):
  an absent message gives the empty string; string content is returned as it is; list
  content gives the texts of the blocks tagged "text", an absent text counting as empty,
  joined with a newline, so that a list without "text" blocks, the empty list among
  them, gives the empty string; any other content gives the empty string.  The spec's
  two examples are the last two conjuncts.
\<close>

theorem extractUserMessage_total:
  fixes j :: 'j
  shows
  "extractUserMessage (None :: 'j message option) = []
   \<and> extractUserMessage (Some (\<lparr>role = r, msg_content = StringContent s\<rparr> :: 'j message)) = s
   \<and> extractUserMessage (Some (\<lparr>role = r, msg_content = ArrayContent items\<rparr> :: 'j message)) =
       join [nl] (map (\<lambda>item. case mc_text item of None \<Rightarrow> [] | Some t \<Rightarrow> t)
                      (filter (\<lambda>item. mc_type item = ''text'') items))
   \<and> extractUserMessage (Some (\<lparr>role = r, msg_content = ArrayContent []\<rparr> :: 'j message)) = []
   \<and> ((\<forall>item \<in> set items. mc_type item \<noteq> ''text'') \<longrightarrow>
        extractUserMessage (Some (\<lparr>role = r, msg_content = ArrayContent items\<rparr> :: 'j message)) = [])
   \<and> extractUserMessage (Some \<lparr>role = r, msg_content = OtherContent j\<rparr>) = []
   \<and> extractUserMessage
         (Some (\<lparr>role = ''user'', msg_content = StringContent ''hi''\<rparr> :: 'j message)) = ''hi''
   \<and> extractUserMessage (Some (\<lparr>role = ''user'', msg_content = ArrayContent
         [\<lparr>mc_type = ''text'', mc_text = Some ''a'', mc_cache_control = None\<rparr>,
          \<lparr>mc_type = ''image'', mc_text = None, mc_cache_control = None\<rparr>]\<rparr> :: 'j message)) = ''a''"
proof -
  have no_text: "filter (\<lambda>item. mc_type item = ''text'') items = []"
    if "\<forall>item \<in> set items. mc_type item \<noteq> ''text''"
    using that by (induction items) auto
  have unfold: "text_or_empty = (\<lambda>item. case mc_text item of None \<Rightarrow> [] | Some t \<Rightarrow> t)"
    by (simp add: fun_eq_iff text_or_empty_def)
  show ?thesis
    by (auto simp: extractUserMessage_def unfold no_text)
qed

theorem extractUserMessage_total_witness:
  "mc_type \<lparr>mc_type = ''image'', mc_text = Some ''x'', mc_cache_control = None\<rparr> \<noteq> ''text''
   \<and> extractUserMessage (Some (\<lparr>role = ''user'', msg_content = ArrayContent
         [\<lparr>mc_type = ''image'', mc_text = Some ''x'', mc_cache_control = None\<rparr>]\<rparr>
         :: unit message)) = []"
  using extractUserMessage_total
    [where j = "()" and r = "''user''" and s = "[]" and
        items = "[\<lparr>mc_type = ''image'', mc_text = Some ''x'', mc_cache_control = None\<rparr>]"]
  by simp

section \<open>Properties of the request selector\<close>

lemmas select_eval =
  selectBestRequest_def filterNonHaikuRequests_def filterRequestsWithTools_def
  body_model_def body_tools_def body_system_def tool_count_def sort_by_def
  includes_str_def startsWith_def toLowerCase_def toLowerChar_def Let_def char_of_eq_iff


lemma startsWith_prefix: "startsWith s p \<longleftrightarrow> prefix p s"
proof
  assume "startsWith s p"
  then have "s = p @ drop (length p) s"
    unfolding startsWith_def by (metis append_take_drop_id)
  then show "prefix p s" by (rule prefixI)
next
  assume "prefix p s"
  then obtain r where "s = p @ r" by (auto elim: prefixE)
  then show "startsWith s p" by (simp add: startsWith_def)
qed




text \<open>
  The captures left out above.  The first record below has two tools and a system-block
  list that is present but empty; the second has one tool and a non-empty system-block
  list, so it is the only record of the preferred tier.  The selector returns the first
  one: it tests \<open>body.system\<close> for truthiness, which an empty array passes, whereas
  \<open>filterRequestsWithTools\<close> tests its array for \<open>length > 0\<close>.
\<close>

lemma selectBestRequest_empty_system_list:
  "selectBestRequest
     [capture_record 1 (Some ''claude-sonnet'') (Some []) (Some [tool1, tool2]),
      capture_record 2 (Some ''claude-sonnet'') (Some [block1]) (Some [tool1])]
   = Inr (capture_record 1 (Some ''claude-sonnet'') (Some []) (Some [tool1, tool2]))
   \<and> \<not> in_preferred_tier (capture_record 1 (Some ''claude-sonnet'') (Some []) (Some [tool1, tool2]))
   \<and> in_preferred_tier (capture_record 2 (Some ''claude-sonnet'') (Some [block1]) (Some [tool1]))"
  by (simp add: in_preferred_tier_def non_haiku_def contains_haiku_iff select_eval)




text \<open>
  C7.  For an absent tool list \<open>filterAndSortTools\<close> returns the empty list.  For a
  present one the result holds exactly the tools whose name does not begin with
  \<open>mcp__\<close>, each as often as the input holds it (no tool is dropped for having the
  name of another one); the input list is a value and is not changed.  When the
  comparison \<open>localeCompare\<close> is a total preorder, the result is sorted ascending by
  name under it.  On the tools named \<open>mcp__x\<close>, \<open>b\<close>, \<open>a\<close> the result is the tools
  named \<open>a\<close>, \<open>b\<close>, for every comparison that puts \<open>b\<close> after \<open>a\<close>.
\<close>

theorem filterAndSortTools_spec:
  fixes localeCompare :: "string \<Rightarrow> string \<Rightarrow> int" and tls :: "'j tool list"
  shows
  "filterAndSortTools localeCompare None = ([] :: 'j tool list)
   \<and> mset (filterAndSortTools localeCompare (Some tls)) =
       mset (filter (\<lambda>t. \<not> prefix ''mcp__'' (name t)) tls)
   \<and> ((\<forall>a b. localeCompare a b \<le> 0 \<or> localeCompare b a \<le> 0)
        \<and> (\<forall>a b c. localeCompare a b \<le> 0 \<and> localeCompare b c \<le> 0 \<longrightarrow> localeCompare a c \<le> 0)
       \<longrightarrow> sorted_wrt (\<lambda>a b. localeCompare (name a) (name b) \<le> 0)
                      (filterAndSortTools localeCompare (Some tls)))
   \<and> (0 < localeCompare ''b'' ''a'' \<longrightarrow>
        filterAndSortTools localeCompare
          (Some [\<lparr>name = ''mcp__x'', description = d1, input_schema = j1\<rparr>,
                 \<lparr>name = ''b'', description = d2, input_schema = j2\<rparr>,
                 \<lparr>name = ''a'', description = d3, input_schema = (j3 :: 'j)\<rparr>]) =
          [\<lparr>name = ''a'', description = d3, input_schema = j3\<rparr>,
           \<lparr>name = ''b'', description = d2, input_schema = j2\<rparr>])"
proof -
  let ?cmp = "\<lambda>a b :: 'j tool. localeCompare (name a) (name b)"
  have none: "filterAndSortTools localeCompare None = ([] :: 'j tool list)"
    by (simp add: filterAndSortTools_def)
  have same: "mset (filterAndSortTools localeCompare (Some tls)) =
       mset (filter (\<lambda>t. \<not> prefix ''mcp__'' (name t)) tls)"
    by (simp add: filterAndSortTools_def mset_sort_by startsWith_prefix)
  have sorted: "sorted_wrt (\<lambda>a b. localeCompare (name a) (name b) \<le> 0)
                      (filterAndSortTools localeCompare (Some tls))"
    if total: "\<forall>a b. localeCompare a b \<le> 0 \<or> localeCompare b a \<le> 0"
      and trans: "\<forall>a b c. localeCompare a b \<le> 0 \<and> localeCompare b c \<le> 0 \<longrightarrow> localeCompare a c \<le> 0"
  proof -
    have t1: "\<And>a b. ?cmp a b \<le> 0 \<or> ?cmp b a \<le> 0" using total by blast
    have t2: "\<And>a b c. ?cmp a b \<le> 0 \<Longrightarrow> ?cmp b c \<le> 0 \<Longrightarrow> ?cmp a c \<le> 0"
      using trans by blast
    show ?thesis
      unfolding filterAndSortTools_def option.case
      by (rule sorted_wrt_sort_by[of ?cmp, OF t1 t2])
  qed
  have example: "filterAndSortTools localeCompare
          (Some [\<lparr>name = ''mcp__x'', description = d1, input_schema = j1\<rparr>,
                 \<lparr>name = ''b'', description = d2, input_schema = j2\<rparr>,
                 \<lparr>name = ''a'', description = d3, input_schema = j3\<rparr>]) =
          [\<lparr>name = ''a'', description = d3, input_schema = j3\<rparr>,
           \<lparr>name = ''b'', description = d2, input_schema = j2\<rparr>]"
    if "0 < localeCompare ''b'' ''a''"
    using that by (simp add: filterAndSortTools_def startsWith_def sort_by_def)
  show ?thesis
    using none same sorted example by blast
qed

theorem filterAndSortTools_spec_witness:
  "sorted_wrt (\<lambda>a b. (if name a = name b then 0 else if name a < name b then - 1 else 1)
                        \<le> (0 :: int))
     (filterAndSortTools (\<lambda>a b. if a = b then 0 else if a < b then - 1 else 1)
        (Some [\<lparr>name = ''mcp__x'', description = ''x'', input_schema = ()\<rparr>,
               \<lparr>name = ''b'', description = ''y'', input_schema = ()\<rparr>,
               \<lparr>name = ''a'', description = ''z'', input_schema = ()\<rparr>]))
   \<and> filterAndSortTools (\<lambda>a b. if a = b then 0 else if a < b then - 1 else 1)
        (Some [\<lparr>name = ''mcp__x'', description = ''x'', input_schema = ()\<rparr>,
               \<lparr>name = ''b'', description = ''y'', input_schema = ()\<rparr>,
               \<lparr>name = ''a'', description = ''z'', input_schema = ()\<rparr>])
       = [\<lparr>name = ''a'', description = ''z'', input_schema = ()\<rparr>,
          \<lparr>name = ''b'', description = ''y'', input_schema = ()\<rparr>]"
proof -
  let ?cmp = "\<lambda>a b :: string. if a = b then 0 else if a < b then - 1 else (1 :: int)"
  have total: "\<forall>a b. ?cmp a b \<le> 0 \<or> ?cmp b a \<le> 0"
    by auto
  have trans: "\<forall>a b c. ?cmp a b \<le> 0 \<and> ?cmp b c \<le> 0 \<longrightarrow> ?cmp a c \<le> 0"
    by (auto split: if_splits)
  have after: "0 < ?cmp ''b'' ''a''"
    by (simp add: less_char_def)
  show ?thesis
    using filterAndSortTools_spec
      [where localeCompare = ?cmp and ?j1.0 = "()" and ?j2.0 = "()" and ?j3.0 = "()"
         and ?d1.0 = "''x''" and ?d2.0 = "''y''" and ?d3.0 = "''z''"
         and tls = "[\<lparr>name = ''mcp__x'', description = ''x'', input_schema = ()\<rparr>,
                     \<lparr>name = ''b'', description = ''y'', input_schema = ()\<rparr>,
                     \<lparr>name = ''a'', description = ''z'', input_schema = ()\<rparr>]"]
      total trans after
    by blast
qed

section \<open>Properties of the capture parser\<close>

lemma parseJsonl_lines:
  "parseJsonl JSON_parse capture = map_throwing JSON_parse (nonblank_lines (trim capture))"
  by (simp add: parseJsonl_def nonblank_lines_def)

text \<open>
  C5.  \<open>parseJsonl\<close> splits the trimmed capture text into lines and drops the lines
  that are blank after trimming; up to white space around them, the lines it keeps are
  the non-blank lines of the capture text itself, in the same order.  If every kept line
  decodes, the result is the sequence of the decoded records, one per kept line and in
  line order.  If some kept line does not decode, the call fails as a whole (the result
  is an error, not a sequence), with the error of the first such line.  The model is a
  function of the decoder and the text alone, so two calls on the same text give equal
  results.
\<close>

theorem parseJsonl_spec:
  fixes JSON_parse :: "string \<Rightarrow> error + 'r"
  shows
  "map trim (nonblank_lines (trim capture)) = map trim (nonblank_lines capture)
   \<and> ((\<forall>l \<in> set (nonblank_lines (trim capture)). \<exists>r. JSON_parse l = Inr r) \<longrightarrow>
        (\<exists>rs. parseJsonl JSON_parse capture = Inr rs
           \<and> length rs = length (nonblank_lines (trim capture))
           \<and> (\<forall>i < length rs. JSON_parse (nonblank_lines (trim capture) ! i) = Inr (rs ! i))))
   \<and> ((\<exists>l \<in> set (nonblank_lines (trim capture)). \<exists>e. JSON_parse l = Inl e) \<longrightarrow>
        (\<exists>e. parseJsonl JSON_parse capture = Inl e))
   \<and> (parseJsonl JSON_parse capture = Inl e \<longleftrightarrow>
        (\<exists>k < length (nonblank_lines (trim capture)).
            JSON_parse (nonblank_lines (trim capture) ! k) = Inl e
            \<and> (\<forall>j < k. \<exists>r. JSON_parse (nonblank_lines (trim capture) ! j) = Inr r)))"
proof -
  let ?lines = "nonblank_lines (trim capture)"
  have ok: "\<exists>rs. parseJsonl JSON_parse capture = Inr rs \<and> length rs = length ?lines
           \<and> (\<forall>i < length rs. JSON_parse (?lines ! i) = Inr (rs ! i))"
    if all: "\<forall>l \<in> set ?lines. \<exists>r. JSON_parse l = Inr r"
  proof (cases "parseJsonl JSON_parse capture")
    case (Inl e)
    then obtain k where "k < length ?lines" "JSON_parse (?lines ! k) = Inl e"
      unfolding parseJsonl_lines map_throwing_Inl_iff by blast
    with all show ?thesis by (metis nth_mem sum.distinct(1))
  next
    case (Inr rs)
    then have "list_all2 (\<lambda>x y. JSON_parse x = Inr y) ?lines rs"
      unfolding parseJsonl_lines map_throwing_Inr_iff .
    then have "length rs = length ?lines \<and> (\<forall>i < length rs. JSON_parse (?lines ! i) = Inr (rs ! i))"
      by (simp add: list_all2_conv_all_nth)
    with Inr show ?thesis by simp
  qed
  have bad: "\<exists>e. parseJsonl JSON_parse capture = Inl e"
    if some: "\<exists>l \<in> set ?lines. \<exists>e. JSON_parse l = Inl e"
  proof (cases "parseJsonl JSON_parse capture")
    case (Inl e)
    then show ?thesis by blast
  next
    case (Inr rs)
    then have all2: "list_all2 (\<lambda>x y. JSON_parse x = Inr y) ?lines rs"
      unfolding parseJsonl_lines map_throwing_Inr_iff .
    from some obtain l e where l: "l \<in> set ?lines" "JSON_parse l = Inl e" by blast
    then obtain i where "i < length ?lines" "?lines ! i = l"
      by (auto simp: in_set_conv_nth)
    with all2 have "JSON_parse l = Inr (rs ! i)"
      by (auto simp: list_all2_conv_all_nth)
    with l(2) show ?thesis by simp
  qed
  have err: "parseJsonl JSON_parse capture = Inl e \<longleftrightarrow>
        (\<exists>k < length ?lines. JSON_parse (?lines ! k) = Inl e
            \<and> (\<forall>j < k. \<exists>r. JSON_parse (?lines ! j) = Inr r))"
    unfolding parseJsonl_lines by (rule map_throwing_Inl_iff)
  show ?thesis
    using trimmed_lines_trim[of capture] ok bad err by blast
qed

text \<open>
  An instance with a toy decoder, which accepts the numeral \<open>1\<close> between blanks: one
  capture that decodes and one with an undecodable line.
\<close>

theorem parseJsonl_spec_witness:
  "parseJsonl (\<lambda>l. if trim l = ''1'' then Inr (1 :: nat) else Inl SyntaxError)
     ''\<newline> 1\<newline>\<newline>1 \<newline>'' = Inr [1, 1]
   \<and> parseJsonl (\<lambda>l. if trim l = ''1'' then Inr (1 :: nat) else Inl SyntaxError)
     ''1\<newline>x\<newline>1'' = Inl SyntaxError"
  using
    parseJsonl_spec[of "''\<newline> 1\<newline>\<newline>1 \<newline>''"
      "\<lambda>l. if trim l = ''1'' then Inr (1 :: nat) else Inl SyntaxError" SyntaxError]
    parseJsonl_spec[of "''1\<newline>x\<newline>1''"
      "\<lambda>l. if trim l = ''1'' then Inr (1 :: nat) else Inl SyntaxError" SyntaxError]
  by (simp add: parseJsonl_def trim_def isWhiteSpace_def nonblank_lines_def)

text \<open>
  C10.  On a capture made of white space only, the empty text among them,
  \<open>parseJsonl\<close> returns the empty sequence and the decoder is never consulted; the
  selector applied to that result then fails with its own error.
\<close>

theorem parseJsonl_blank_capture:
  fixes JSON_parse :: "string \<Rightarrow> error + 'j request_response_pair"
  shows
  "parseJsonl JSON_parse [] = Inr []
   \<and> ((\<forall>c \<in> set capture. isWhiteSpace c) \<longrightarrow>
        parseJsonl JSON_parse capture = Inr []
        \<and> (case parseJsonl JSON_parse capture of
              Inl e \<Rightarrow> Inl e
            | Inr pairs \<Rightarrow> selectBestRequest pairs)
           = Inl (Error ''No non-Haiku request found in the log''))"
proof -
  have blank: "parseJsonl JSON_parse s = Inr []" if "\<forall>c \<in> set s. isWhiteSpace c" for s
  proof -
    have t: "trim s = []" using that by (rule trim_all_white)
    have e: "trim [] = []" by (simp add: trim_def)
    show ?thesis unfolding parseJsonl_def t by (simp add: e)
  qed
  have none: "selectBestRequest ([] :: 'j request_response_pair list)
                = Inl (Error ''No non-Haiku request found in the log'')"
    by (simp add: selectBestRequest_def filterNonHaikuRequests_def filterRequestsWithTools_def)
  show ?thesis
    using blank[of "[]"] blank[of capture] none by simp
qed

theorem parseJsonl_blank_capture_witness:
  "parseJsonl (\<lambda>l. Inl SyntaxError :: error + unit request_response_pair)
      [CHR '' '', nl, CHR 0x09, CHR 0x0D, nl] = Inr []
   \<and> (case parseJsonl (\<lambda>l. Inl SyntaxError :: error + unit request_response_pair)
              [CHR '' '', nl, CHR 0x09, CHR 0x0D, nl] of
         Inl e \<Rightarrow> Inl e
       | Inr pairs \<Rightarrow> selectBestRequest pairs)
      = Inl (Error ''No non-Haiku request found in the log'')"
  using parseJsonl_blank_capture
    [of "\<lambda>l. Inl SyntaxError :: error + unit request_response_pair"
        "[CHR '' '', nl, CHR 0x09, CHR 0x0D, nl]"]
  by (simp add: isWhiteSpace_def selectBestRequest_def filterNonHaikuRequests_def
        filterRequestsWithTools_def)

section \<open>Properties of the source patcher\<close>












text \<open>
  C3.  The outcome of \<open>patchCliVersionCheck\<close> is decided by cases.  A text without the
  marker is returned unchanged with \<open>patched: false\<close>, without error; so is the content
  of any result that does not contain the marker, when the patcher is run on it again.
  A text contains the marker exactly if the marker has a first occurrence; for such a text
  the call fails exactly when there is no "function" token at or before the marker, or no
  opening brace from the nearest such token on, or the depth count from that brace never
  returns to 0; each of the three gives its own error.  In every other case the result
  is \<open>patched: true\<close>.
\<close>

theorem patchCliVersionCheck_cases:
  "((\<nexists>pre post. s = pre @ warningText @ post) \<longrightarrow>
      patchCliVersionCheck s =
        Inr \<lparr>patched = False, content = s,
             message = Some ''Warning text not found - version check may not exist''\<rparr>)
   \<and> ((\<exists>pre post. s = pre @ warningText @ post) \<longleftrightarrow> (\<exists>w. first_marker s w))
   \<and> (first_marker s w \<longrightarrow>
        (no_enclosing_function s w \<longrightarrow>
           patchCliVersionCheck s =
             Inl (Error ''Could not find function declaration before warning text''))
        \<and> (no_opening_brace s w \<longrightarrow>
             patchCliVersionCheck s =
               Inl (Error ''Could not find opening brace after function declaration''))
        \<and> (unbalanced_braces s w \<longrightarrow>
             patchCliVersionCheck s = Inl (Error ''Could not find matching closing brace''))
        \<and> ((\<exists>e. patchCliVersionCheck s = Inl e) \<longleftrightarrow>
             no_enclosing_function s w \<or> no_opening_brace s w \<or> unbalanced_braces s w)
        \<and> ((\<exists>text. patchCliVersionCheck s =
                     Inr \<lparr>patched = True, content = text,
                          message = Some ''Version check successfully patched''\<rparr>) \<longleftrightarrow>
             \<not> (no_enclosing_function s w \<or> no_opening_brace s w \<or> unbalanced_braces s w)))
   \<and> (patchCliVersionCheck s = Inr r \<and> (\<nexists>pre post. content r = pre @ warningText @ post) \<longrightarrow>
        patchCliVersionCheck (content r) =
          Inr \<lparr>patched = False, content = content r,
               message = Some ''Warning text not found - version check may not exist''\<rparr>)"
proof -
  have absent: "patchCliVersionCheck t =
        Inr \<lparr>patched = False, content = t,
             message = Some ''Warning text not found - version check may not exist''\<rparr>"
    if "\<nexists>pre post. t = pre @ warningText @ post" for t
    using that by (intro patch_no_marker) (simp add: indexOf_marker_None_iff)
  have present: "(no_enclosing_function s w \<longrightarrow>
           patchCliVersionCheck s =
             Inl (Error ''Could not find function declaration before warning text''))
        \<and> (no_opening_brace s w \<longrightarrow>
             patchCliVersionCheck s =
               Inl (Error ''Could not find opening brace after function declaration''))
        \<and> (unbalanced_braces s w \<longrightarrow>
             patchCliVersionCheck s = Inl (Error ''Could not find matching closing brace''))
        \<and> ((\<exists>e. patchCliVersionCheck s = Inl e) \<longleftrightarrow>
             no_enclosing_function s w \<or> no_opening_brace s w \<or> unbalanced_braces s w)
        \<and> ((\<exists>text. patchCliVersionCheck s =
                     Inr \<lparr>patched = True, content = text,
                          message = Some ''Version check successfully patched''\<rparr>) \<longleftrightarrow>
             \<not> (no_enclosing_function s w \<or> no_opening_brace s w \<or> unbalanced_braces s w))"
    if "first_marker s w"
  proof -
    from that have w: "indexOf s warningText = Some w"
      by (simp add: indexOf_marker_Some_iff)
    show ?thesis
    proof (cases "scanFunction s w")
      case None
      with patch_no_function[OF w None] show ?thesis
        by (simp add: no_enclosing_function_iff no_opening_brace_iff unbalanced_braces_iff)
    next
      case f: (Some f)
      show ?thesis
      proof (cases "scanOpenBrace (drop f s) f")
        case None
        with f patch_no_open[OF w f None] show ?thesis
          by (simp add: no_enclosing_function_iff no_opening_brace_iff unbalanced_braces_iff)
      next
        case b: (Some b)
        show ?thesis
        proof (cases "scanCloseBrace (drop (b + 1) s) (b + 1) 1")
          case None
          with f b patch_no_close[OF w f b None] show ?thesis
            by (simp add: no_enclosing_function_iff no_opening_brace_iff unbalanced_braces_iff)
        next
          case c: (Some c)
          with f b patch_done[OF w f b c] show ?thesis
            by (simp add: no_enclosing_function_iff no_opening_brace_iff unbalanced_braces_iff)
        qed
      qed
    qed
  qed
  show ?thesis
    using absent[of s] absent[of "content r"] present marker_cases[of s] by blast
qed

theorem patchCliVersionCheck_cases_witness:
  "patchCliVersionCheck ''var a;function v(){}'' =
     Inr \<lparr>patched = False, content = ''var a;function v(){}'',
          message = Some ''Warning text not found - version check may not exist''\<rparr>
   \<and> patchCliVersionCheck ''var a;v = () => {It looks like your version of Claude Code}'' =
       Inl (Error ''Could not find function declaration before warning text'')
   \<and> patchCliVersionCheck ''var a;function v() It looks like your version of Claude Code'' =
       Inl (Error ''Could not find opening brace after function declaration'')
   \<and> patchCliVersionCheck
        ''var a;function v(){if(x){It looks like your version of Claude Code}b()'' =
       Inl (Error ''Could not find matching closing brace'')
   \<and> (\<exists>text. patchCliVersionCheck
        ''var a;function v(){if(x){It looks like your version of Claude Code}}b()'' =
       Inr \<lparr>patched = True, content = text,
            message = Some ''Version check successfully patched''\<rparr>)"
proof -
  let ?s1 = "''var a;function v(){}''"
  let ?s2 = "''var a;v = () => {It looks like your version of Claude Code}''"
  let ?s3 = "''var a;function v() It looks like your version of Claude Code''"
  let ?s4 = "''var a;function v(){if(x){It looks like your version of Claude Code}b()''"
  let ?s5 = "''var a;function v(){if(x){It looks like your version of Claude Code}}b()''"
  have m1: "\<nexists>pre post. ?s1 = pre @ warningText @ post"
    unfolding indexOf_marker_None_iff[symmetric]
    by (simp add: warningText_def startsWith_def)
  have m2: "first_marker ?s2 17"
    unfolding indexOf_marker_Some_iff[symmetric]
    by (simp add: warningText_def startsWith_def)
  have m3: "first_marker ?s3 19"
    unfolding indexOf_marker_Some_iff[symmetric]
    by (simp add: warningText_def startsWith_def)
  have m4: "first_marker ?s4 25"
    unfolding indexOf_marker_Some_iff[symmetric]
    by (simp add: warningText_def startsWith_def)
  have m5: "first_marker ?s5 25"
    unfolding indexOf_marker_Some_iff[symmetric]
    by (simp add: warningText_def startsWith_def)
  have f2: "scanFunction ?s2 17 = None"
    by (simp add: scanFunction_unfold substring_def)
  have f3: "scanFunction ?s3 19 = Some 6"
    by (simp add: scanFunction_unfold substring_def)
  have f4: "scanFunction ?s4 25 = Some 6"
    by (simp add: scanFunction_unfold substring_def)
  have f5: "scanFunction ?s5 25 = Some 6"
    by (simp add: scanFunction_unfold substring_def)
  have c2: "no_enclosing_function ?s2 17"
    unfolding no_enclosing_function_iff by (rule f2)
  have c3: "no_opening_brace ?s3 19"
    unfolding no_opening_brace_iff f3 by simp
  have c4: "unbalanced_braces ?s4 25"
    unfolding unbalanced_braces_iff f4 by simp
  have c5: "\<not> (no_enclosing_function ?s5 25 \<or> no_opening_brace ?s5 25
               \<or> unbalanced_braces ?s5 25)"
    unfolding no_enclosing_function_iff no_opening_brace_iff unbalanced_braces_iff f5 by simp
  from patchCliVersionCheck_cases[of ?s1] m1
  have "patchCliVersionCheck ?s1 =
     Inr \<lparr>patched = False, content = ?s1,
          message = Some ''Warning text not found - version check may not exist''\<rparr>"
    by blast
  moreover from patchCliVersionCheck_cases[of ?s2 17] m2 c2
  have "patchCliVersionCheck ?s2 =
       Inl (Error ''Could not find function declaration before warning text'')"
    by blast
  moreover from patchCliVersionCheck_cases[of ?s3 19] m3 c3
  have "patchCliVersionCheck ?s3 =
       Inl (Error ''Could not find opening brace after function declaration'')"
    by blast
  moreover from patchCliVersionCheck_cases[of ?s4 25] m4 c4
  have "patchCliVersionCheck ?s4 = Inl (Error ''Could not find matching closing brace'')"
    by blast
  moreover from patchCliVersionCheck_cases[of ?s5 25] m5 c5
  have "\<exists>text. patchCliVersionCheck ?s5 =
       Inr \<lparr>patched = True, content = text,
            message = Some ''Version check successfully patched''\<rparr>"
    by blast
  ultimately show ?thesis by blast
qed

end
